theory Spec2Isabelle
  imports Main
begin

section \<open>Strings\<close>

text \<open>
  A JavaScript string is modelled as a \<^typ>\<open>string\<close>: a list of code units below 256
  (ASCII and the Latin-1 supplement). The character classes and the case mapping are those
  of ECMAScript restricted to that range.
\<close>

definition is_space :: "char \<Rightarrow> bool" where
  \<comment> \<open>White space and line terminators, as stripped by \<open>trim()\<close> and matched by \<open>\\s\<close>:
      TAB, LF, VT, FF, CR, SPACE and NBSP.\<close>
  "is_space c = (let n = (of_char c :: nat) in (9 \<le> n \<and> n \<le> 13) \<or> n = 32 \<or> n = 160)"

definition is_digit :: "char \<Rightarrow> bool" where
  \<comment> \<open>\<open>\\d\<close>\<close>
  "is_digit c = (let n = (of_char c :: nat) in 48 \<le> n \<and> n \<le> 57)"

definition is_slug_char :: "char \<Rightarrow> bool" where
  \<comment> \<open>\<open>[a-z0-9]\<close>\<close>
  "is_slug_char c = (let n = (of_char c :: nat) in (97 \<le> n \<and> n \<le> 122) \<or> (48 \<le> n \<and> n \<le> 57))"

abbreviation (input) nonslug :: "char \<Rightarrow> bool" where
  \<comment> \<open>\<open>[^a-z0-9]\<close>\<close>
  "nonslug \<equiv> (\<lambda>c. \<not> is_slug_char c)"

definition is_hyphen :: "char \<Rightarrow> bool" where
  "is_hyphen c = (c = CHR ''-'')"

definition lower_char :: "char \<Rightarrow> char" where
  \<comment> \<open>The lower-case mapping on one code unit: A-Z, and the Latin-1 capitals
      U+00C0..U+00DE without the multiplication sign U+00D7.\<close>
  "lower_char c = (let n = (of_char c :: nat) in
     if (65 \<le> n \<and> n \<le> 90) \<or> (192 \<le> n \<and> n \<le> 222 \<and> n \<noteq> 215) then char_of (n + 32) else c)"

definition toLowerCase :: "string \<Rightarrow> string" where
  "toLowerCase s = map lower_char s"

definition trimStart :: "string \<Rightarrow> string" where
  "trimStart s = dropWhile is_space s"

definition trimEnd :: "string \<Rightarrow> string" where
  "trimEnd s = rev (dropWhile is_space (rev s))"

definition trim :: "string \<Rightarrow> string" where
  "trim s = trimEnd (trimStart s)"

text \<open>
  \<open>s.replace(/[C]+/g, r)\<close> for a character class \<open>C\<close>: scanning from the left, every
  maximal run of characters of the class is replaced by \<open>r\<close>.
\<close>

function replace_runs :: "(char \<Rightarrow> bool) \<Rightarrow> string \<Rightarrow> string \<Rightarrow> string" where
  "replace_runs P r [] = []"
| "replace_runs P r (c # cs) =
     (if P c then r @ replace_runs P r (dropWhile P cs) else c # replace_runs P r cs)"
  by pat_completeness auto
termination
  by (relation "measure (\<lambda>(P, r, s). length s)")
     (auto simp: less_Suc_eq_le length_dropWhile_le)

text \<open>
  \<open>s.replace(/^-+|-+$/g, '')\<close>: the first alternative matches only the run of hyphens at
  the start of the text, the second only a run of hyphens that reaches its end; both are
  replaced by the empty string.
\<close>

definition strip_hyphens :: "string \<Rightarrow> string" where
  "strip_hyphens s = rev (dropWhile is_hyphen (rev (dropWhile is_hyphen s)))"

section \<open>Slug generation\<close>

text \<open>
  \<open>slugify\<close> of the Event model: \<open>toString\<close> is the identity on a string; then
  \<open>toLowerCase\<close>, \<open>trim\<close> and the three \<open>replace\<close> calls in the order of the source.
\<close>

definition slugify :: "string \<Rightarrow> string" where
  "slugify v =
     replace_runs is_hyphen ''-''
       (strip_hyphens
         (replace_runs nonslug ''-''
           (trim (toLowerCase v))))"

subsection \<open>The slug as the specification describes it\<close>

text \<open>
  The maximal runs of characters of \<open>[a-z0-9]\<close> of a text, in order, and their
  concatenation with one hyphen between two neighbours.
\<close>

function words_of :: "string \<Rightarrow> string list" where
  "words_of [] = []"
| "words_of (c # cs) =
     (if is_slug_char c then (c # takeWhile is_slug_char cs) # words_of (dropWhile is_slug_char cs)
      else words_of cs)"
  by pat_completeness auto
termination
  by (relation "measure length") (auto simp: less_Suc_eq_le length_dropWhile_le)

fun join_hyphen :: "string list \<Rightarrow> string" where
  "join_hyphen [] = []"
| "join_hyphen [w] = w"
| "join_hyphen (w # ws) = w @ CHR ''-'' # join_hyphen ws"

definition slug_words :: "string list \<Rightarrow> bool" where
  "slug_words ws = (\<forall>w \<in> set ws. w \<noteq> [] \<and> (\<forall>c \<in> set w. is_slug_char c))"

definition strip_end :: "string \<Rightarrow> string" where
  "strip_end s = rev (dropWhile is_hyphen (rev s))"

definition strip_core :: "string \<Rightarrow> string" where
  "strip_core s = strip_end (dropWhile is_hyphen (replace_runs nonslug ''-'' s))"

section \<open>Time normalisation\<close>

text \<open>
  \<open>String(n)\<close> for a non-negative integer is its decimal numeral; \<open>padStart\<close> fills on
  the left up to the target length; \<open>parseInt(s, 10)\<close> is only ever applied to a capture
  group of decimal digits, where it is the value of the numeral.
\<close>

definition digit_char :: "nat \<Rightarrow> char" where
  "digit_char d = char_of (48 + d)"

function String_nat :: "nat \<Rightarrow> string" where
  "String_nat n = (if n < 10 then [digit_char n] else String_nat (n div 10) @ [digit_char (n mod 10)])"
  by pat_completeness auto
termination
  by (relation "measure id") auto

declare String_nat.simps [simp del]

definition padStart :: "nat \<Rightarrow> char \<Rightarrow> string \<Rightarrow> string" where
  "padStart n c s = replicate (n - length s) c @ s"

definition parseInt :: "string \<Rightarrow> nat" where
  "parseInt s = foldl (\<lambda>n c. 10 * n + (of_char c - 48)) 0 s"

datatype time_error =
    InvalidTime \<comment> \<open>\<open>Error('Invalid time')\<close>\<close>
  | UnrecognizedFormat \<comment> \<open>\<open>Error('Unrecognized time format')\<close>\<close>

text \<open>
  \<open>/^(\\d{1,2}):(\\d{2})$/\<close>. The first group is greedy and takes up to two digits; the
  character after it has to be the colon, which is no digit, so a shorter first group
  never matches where the greedy one does not. The result is the pair of captures.
\<close>

definition match_h24 :: "string \<Rightarrow> (string \<times> string) option" where
  "match_h24 s =
     (let g1 = takeWhile is_digit (take 2 s); r1 = drop (length g1) s in
      if g1 = [] then None
      else case r1 of
             [] \<Rightarrow> None
           | c # g2 \<Rightarrow>
               if c = CHR '':'' \<and> length g2 = 2 \<and> list_all is_digit g2 then Some (g1, g2)
               else None)"

text \<open>
  \<open>/^(\\d{1,2})(?::(\\d{2}))?\\s*(am|pm)$/\<close>. After the first group comes a colon, white
  space or a letter, so again only the greedy first group can match. The optional minute
  group is taken when a colon and two digits follow; when it cannot be taken and a colon
  follows, nothing matches, since a colon is neither white space nor a letter. The result
  is the triple of captures, the second one absent when the minute group did not take
  part in the match.
\<close>

definition match_h12 :: "string \<Rightarrow> (string \<times> string option \<times> string) option" where
  "match_h12 s =
     (let g1 = takeWhile is_digit (take 2 s); r1 = drop (length g1) s in
      if g1 = [] then None
      else
        let (g2, r2) =
              (case r1 of
                 [] \<Rightarrow> (None, r1)
               | c # t \<Rightarrow>
                   if c = CHR '':'' \<and> length (take 2 t) = 2 \<and> list_all is_digit (take 2 t)
                   then (Some (take 2 t), drop 2 t)
                   else (None, r1));
            g3 = dropWhile is_space r2
        in if g3 = ''am'' \<or> g3 = ''pm'' then Some (g1, g2, g3) else None)"

definition format_hhmm :: "nat \<Rightarrow> nat \<Rightarrow> string" where
  \<comment> \<open>The template literal of both return statements.\<close>
  "format_hhmm hh mm =
     padStart 2 CHR ''0'' (String_nat hh) @ '':'' @ padStart 2 CHR ''0'' (String_nat mm)"

definition normalizeTime :: "string \<Rightarrow> time_error + string" where
  "normalizeTime input =
     (let trimmed = toLowerCase (trim input) in
      case match_h24 trimmed of
        Some (g1, g2) \<Rightarrow>
          (let hh = parseInt g1; mm = parseInt g2 in
           if hh < 0 \<or> hh > 23 \<or> mm < 0 \<or> mm > 59 then Inl InvalidTime
           else Inr (format_hhmm hh mm))
      | None \<Rightarrow>
          (case match_h12 trimmed of
             Some (g1, g2, period) \<Rightarrow>
               (let hh = parseInt g1;
                    mm = (case g2 of Some m \<Rightarrow> parseInt m | None \<Rightarrow> 0) in
                if hh < 1 \<or> hh > 12 \<or> mm < 0 \<or> mm > 59 then Inl InvalidTime
                else
                  let hh1 = (if period = ''pm'' \<and> hh \<noteq> 12 then hh + 12 else hh);
                      hh2 = (if period = ''am'' \<and> hh1 = 12 then 0 else hh1)
                  in Inr (format_hhmm hh2 mm))
           | None \<Rightarrow> Inl UnrecognizedFormat))"

subsection \<open>The two input grammars and the canonical form, as the specification describes them\<close>

definition two_digits :: "nat \<Rightarrow> string" where
  "two_digits n = [digit_char (n div 10), digit_char (n mod 10)]"

definition hhmm :: "nat \<Rightarrow> nat \<Rightarrow> string" where
  \<comment> \<open>The canonical zero-padded form \<open>HH:MM\<close> of hour \<open>h\<close> and minute \<open>m\<close>.\<close>
  "hhmm h m = two_digits h @ '':'' @ two_digits m"

definition hour_digits :: "nat \<Rightarrow> string \<Rightarrow> bool" where
  \<comment> \<open>An hour written \<open>HH\<close>, or \<open>H\<close> when it is below ten.\<close>
  "hour_digits h hs = (hs = two_digits h \<or> (h < 10 \<and> hs = [digit_char h]))"

definition to24 :: "nat \<Rightarrow> string \<Rightarrow> nat" where
  \<comment> \<open>The hour of the day of a twelve-hour reading.\<close>
  "to24 h period = (if period = ''pm'' then (if h = 12 then 12 else h + 12)
                    else (if h = 12 then 0 else h))"

definition shape24 :: "string \<Rightarrow> string \<Rightarrow> string \<Rightarrow> bool" where
  \<comment> \<open>The text is one or two digits, a colon and two digits.\<close>
  "shape24 t ds ms =
     (t = ds @ '':'' @ ms \<and> ds \<noteq> [] \<and> length ds \<le> 2 \<and> list_all is_digit ds \<and>
      length ms = 2 \<and> list_all is_digit ms)"

definition minute_part :: "string option \<Rightarrow> string" where
  "minute_part mo = (case mo of None \<Rightarrow> [] | Some ms \<Rightarrow> '':'' @ ms)"

definition minute_value :: "string option \<Rightarrow> nat" where
  "minute_value mo = (case mo of None \<Rightarrow> 0 | Some ms \<Rightarrow> parseInt ms)"

definition shape12 :: "string \<Rightarrow> string \<Rightarrow> string option \<Rightarrow> string \<Rightarrow> string \<Rightarrow> bool" where
  \<comment> \<open>The text is one or two digits, optionally a colon and two digits, any white space,
      and \<open>am\<close> or \<open>pm\<close>.\<close>
  "shape12 t ds mo sp period =
     (t = ds @ minute_part mo @ sp @ period \<and> ds \<noteq> [] \<and> length ds \<le> 2 \<and> list_all is_digit ds \<and>
      (case mo of None \<Rightarrow> True | Some ms \<Rightarrow> length ms = 2 \<and> list_all is_digit ms) \<and>
      list_all is_space sp \<and> (period = ''am'' \<or> period = ''pm''))"

section \<open>The Event model\<close>

text \<open>
  The fields of \<open>EventDocument\<close>. \<open>slug\<close> is absent on a document that never received
  one; the dates are milliseconds since the epoch.
\<close>

record event =
  title :: string
  slug :: "string option"
  description :: string
  overview :: string
  image_field :: string
  venue :: string
  location :: string
  date :: string
  time :: string
  mode :: string
  audience :: string
  agenda :: "string list"
  organizer :: string
  tags :: "string list"
  createdAt :: nat
  updatedAt :: nat

datatype event_error =
    InvalidDate \<comment> \<open>\<open>Error('Invalid date')\<close>\<close>
  | TimeError time_error

definition slug_unset :: "string option \<Rightarrow> bool" where
  \<comment> \<open>\<open>!this.slug\<close>: the field is absent or the empty string.\<close>
  "slug_unset s = (case s of None \<Rightarrow> True | Some v \<Rightarrow> v = [])"

definition refresh_slug :: "bool \<Rightarrow> event \<Rightarrow> event" where
  \<comment> \<open>The first statement of the hook; \<open>title_modified\<close> is \<open>this.isModified('title')\<close>.\<close>
  "refresh_slug title_modified d =
     (if title_modified \<or> slug_unset (slug d) then d\<lparr>slug := Some (slugify (title d))\<rparr> else d)"

text \<open>
  The pre-save hook of the Event schema. \<open>toISOString\<close> stands for
  \<open>new Date(s).toISOString()\<close>, absent when the date is invalid (\<open>getTime()\<close> is NaN).
  The hook returns the document as the hook leaves it and the error it passes to
  \<open>next\<close>, if any.
\<close>

definition event_pre_save ::
  "(string \<Rightarrow> string option) \<Rightarrow> bool \<Rightarrow> event \<Rightarrow> event \<times> event_error option" where
  "event_pre_save toISOString title_modified d =
     (let d1 = refresh_slug title_modified d in
      case toISOString (date d1) of
        None \<Rightarrow> (d1, Some InvalidDate)
      | Some iso_string \<Rightarrow>
          (let d2 = d1\<lparr>date := iso_string\<rparr> in
           case normalizeTime (time d2) of
             Inl e \<Rightarrow> (d2, Some (TimeError e))
           | Inr t \<Rightarrow> (d2\<lparr>time := t\<rparr>, None)))"

subsection \<open>Saving an Event\<close>

text \<open>
  \<open>save\<close> on an Event runs the schema before the pre-save hook: the setters
  (\<open>trim: true\<close> on every text path but \<open>slug\<close>), then validation, and the hook only when
  validation found nothing. A text path that is absent is modelled as the empty text,
  which \<open>required\<close> rejects in the same way. The result is the document as the save
  leaves it and the error of the save, if any.
\<close>

datatype event_save_error =
    EventValidationError "string set" \<comment> \<open>the paths that failed validation\<close>
  | EventHookError event_error \<comment> \<open>the error that the hook passed to \<open>next\<close>\<close>

definition cast_event :: "event \<Rightarrow> event" where
  "cast_event d =
     d\<lparr>title := trim (title d), description := trim (description d),
       overview := trim (overview d), image_field := trim (image_field d),
       venue := trim (venue d), location := trim (location d), date := trim (date d),
       time := trim (time d), mode := trim (mode d), audience := trim (audience d),
       organizer := trim (organizer d)\<rparr>"

definition failed_paths :: "event \<Rightarrow> string list" where
  \<comment> \<open>\<open>required\<close> on every path, which an empty text fails as well, and the validators of
      \<open>title\<close>, \<open>agenda\<close> and \<open>tags\<close>.\<close>
  "failed_paths d =
     map fst (filter snd
       [(''title'', title d = [] \<or> trim (title d) = []),
        (''slug'', (case slug d of None \<Rightarrow> True | Some v \<Rightarrow> v = [])),
        (''description'', description d = []),
        (''overview'', overview d = []),
        (''image'', image_field d = []),
        (''venue'', venue d = []),
        (''location'', location d = []),
        (''date'', date d = []),
        (''time'', time d = []),
        (''mode'', mode d = []),
        (''audience'', audience d = []),
        (''agenda'', agenda d = []),
        (''organizer'', organizer d = []),
        (''tags'', tags d = [])])"

definition save_event ::
  "(string \<Rightarrow> string option) \<Rightarrow> bool \<Rightarrow> event \<Rightarrow> event \<times> (event_save_error + unit)" where
  "save_event toISOString title_modified d =
     (let c = cast_event d in
      if failed_paths c \<noteq> [] then (c, Inl (EventValidationError (set (failed_paths c))))
      else case event_pre_save toISOString title_modified c of
             (d', Some e) \<Rightarrow> (d', Inl (EventHookError e))
           | (d', None) \<Rightarrow> (d', Inr ()))"

section \<open>The Booking model\<close>

type_synonym object_id = nat

text \<open>
  A candidate document, whose paths may be missing, and a document that passed
  validation. The time stamps that the library maintains are left out.
\<close>

record booking_input =
  in_eventId :: "object_id option"
  in_email :: "string option"

record booking =
  eventId :: object_id
  email :: string

datatype booking_error =
    ValidationError "string list" \<comment> \<open>the messages of the failed validators\<close>
  | LibraryError string \<comment> \<open>an exception of \<open>mongoose.model\<close> or of the query\<close>
  | ReferencedEventMissing \<comment> \<open>\<open>Error('Referenced Event does not exist')\<close>\<close>

text \<open>
  The store: the identifiers of the documents of the Event collection, or the error that
  looking up the model or running the query raises, and the stored bookings.
\<close>

record database =
  event_collection :: "string + object_id list"
  bookings :: "booking list"

definition email_char :: "char \<Rightarrow> bool" where
  \<comment> \<open>\<open>[^\\s@]\<close>\<close>
  "email_char c = (\<not> is_space c \<and> c \<noteq> CHR ''@'')"

text \<open>
  \<open>EMAIL_RE.test(v)\<close> for \<open>/^[^\\s@]+@[^\\s@]+\\.[^\\s@]+$/\<close>. The first group ends at
  the first character outside the class, which has to be the at sign. What follows has
  to lie in the class throughout and to have a full stop that is neither its first nor
  its last character.
\<close>

definition EMAIL_RE_test :: "string \<Rightarrow> bool" where
  "EMAIL_RE_test v =
     (let local = takeWhile email_char v; r = dropWhile email_char v in
      local \<noteq> [] \<and>
      (case r of
         [] \<Rightarrow> False
       | c # host \<Rightarrow>
           c = CHR ''@'' \<and> list_all email_char host \<and> CHR ''.'' \<in> set (butlast (tl host))))"

definition email_setters :: "string \<Rightarrow> string" where
  \<comment> \<open>The schema options \<open>trim: true\<close> and \<open>lowercase: true\<close>.\<close>
  "email_setters v = toLowerCase (trim v)"

definition validate_email :: "string option \<Rightarrow> string list" where
  \<comment> \<open>\<open>required\<close>, which an empty string fails as well, then the custom validator.\<close>
  "validate_email e =
     (case e of
        None \<Rightarrow> [''Email is required'']
      | Some v \<Rightarrow>
          if v = [] then [''Email is required'']
          else if \<not> EMAIL_RE_test v then [''Invalid email address'']
          else [])"

definition validate_eventId :: "object_id option \<Rightarrow> string list" where
  "validate_eventId e = (case e of None \<Rightarrow> [''eventId is required''] | Some _ \<Rightarrow> [])"

definition cast_booking :: "booking_input \<Rightarrow> booking_input" where
  "cast_booking b = b\<lparr>in_email := map_option email_setters (in_email b)\<rparr>"

definition validate_booking :: "booking_input \<Rightarrow> booking_error + booking" where
  "validate_booking b =
     (let errs = validate_email (in_email b) @ validate_eventId (in_eventId b) in
      case (in_eventId b, in_email b) of
        (Some i, Some e) \<Rightarrow>
          if errs = [] then Inr \<lparr>eventId = i, email = e\<rparr> else Inl (ValidationError errs)
      | _ \<Rightarrow> Inl (ValidationError errs))"

text \<open>
  The pre-save hook of the Booking schema: \<open>Inr ()\<close> is the call \<open>next()\<close>, \<open>Inl err\<close>
  the call \<open>next(err)\<close>.
\<close>

definition booking_pre_save :: "database \<Rightarrow> booking \<Rightarrow> booking_error + unit" where
  "booking_pre_save db b =
     (case event_collection db of
        Inl err \<Rightarrow> Inl (LibraryError err)
      | Inr ids \<Rightarrow> if eventId b \<in> set ids then Inr () else Inl ReferencedEventMissing)"

text \<open>
  \<open>save\<close> on a Booking: the setters, validation, the pre-save hook, and the insertion
  when none of them failed.
\<close>

definition save_booking :: "database \<Rightarrow> booking_input \<Rightarrow> database \<times> (booking_error + booking)" where
  "save_booking db b =
     (case validate_booking (cast_booking b) of
        Inl err \<Rightarrow> (db, Inl err)
      | Inr doc \<Rightarrow>
          (case booking_pre_save db doc of
             Inl err \<Rightarrow> (db, Inl err)
           | Inr _ \<Rightarrow> (db\<lparr>bookings := bookings db @ [doc]\<rparr>, Inr doc)))"

definition email_shape :: "string \<Rightarrow> bool" where
  \<comment> \<open>\<open>local@domain.tld\<close>: three non-empty parts without white space or at sign.\<close>
  "email_shape v =
     (\<exists>l d t. v = l @ ''@'' @ d @ ''.'' @ t \<and> l \<noteq> [] \<and> d \<noteq> [] \<and> t \<noteq> [] \<and>
              (\<forall>c \<in> set (l @ d @ t). \<not> is_space c \<and> c \<noteq> CHR ''@''))"

section \<open>The connection cache\<close>

type_synonym handle = nat

datatype conn_error =
    MissingUri \<comment> \<open>\<open>Error('Please define the MONGODB_URI environment variable ...')\<close>\<close>
  | ConnectFailed string \<comment> \<open>the rejection of \<open>mongoose.connect\<close>\<close>

datatype promise_state = Pending | Fulfilled handle | Rejected conn_error

text \<open>
  A cache object: \<open>cached.conn\<close>, \<open>cached.promise\<close> as the index of a promise, every
  promise that a call of \<open>mongoose.connect\<close> created through this object, in the order of
  creation, and whether \<open>globalThis._mongoose\<close> is this object.
\<close>

record mongoose_cache =
  conn :: "handle option"
  promise :: "nat option"
  promises :: "promise_state list"
  global_cache :: bool

datatype outcome = Throw conn_error | Return handle | Await nat

definition uri_missing :: "string option \<Rightarrow> bool" where
  \<comment> \<open>\<open>!uri\<close>: the variable is undefined or the empty string.\<close>
  "uri_missing uri = (case uri of None \<Rightarrow> True | Some u \<Rightarrow> u = [])"

text \<open>
  \<open>connectToDatabase\<close> up to its \<open>await\<close>, which runs without interruption: the value of
  \<open>process.env.MONGODB_URI\<close> at the call and the cache go in; the call throws, returns
  or suspends on a promise.
\<close>

definition connectToDatabase :: "string option \<Rightarrow> mongoose_cache \<Rightarrow> outcome \<times> mongoose_cache" where
  "connectToDatabase uri c =
     (if uri_missing uri then (Throw MissingUri, c)
      else case conn c of
             Some h \<Rightarrow> (Return h, c)
           | None \<Rightarrow>
               (case promise c of
                  None \<Rightarrow>
                    (let p = length (promises c)
                     in (Await p, c\<lparr>promise := Some p, promises := promises c @ [Pending]\<rparr>))
                | Some p \<Rightarrow> (Await p, c)))"

text \<open>
  The rest of \<open>connectToDatabase\<close>, once the awaited promise is settled; \<open>None\<close> while it is
  pending.
\<close>

definition connectToDatabase_resume :: "nat \<Rightarrow> mongoose_cache \<Rightarrow> (outcome \<times> mongoose_cache) option" where
  "connectToDatabase_resume p c =
     (if p < length (promises c) then
        (case promises c ! p of
           Pending \<Rightarrow> None
         | Fulfilled h \<Rightarrow> Some (Return h, c\<lparr>conn := Some h, global_cache := True\<rparr>)
         | Rejected e \<Rightarrow> Some (Throw e, c))
      else None)"

definition getMongoose :: "mongoose_cache \<Rightarrow> handle option" where
  "getMongoose c = conn c"

definition initial_cache :: mongoose_cache where
  \<comment> \<open>\<open>{ conn: null, promise: null }\<close>\<close>
  "initial_cache = \<lparr>conn = None, promise = None, promises = [], global_cache = False\<rparr>"


definition failed_cache :: "mongoose_cache \<Rightarrow> conn_error \<Rightarrow> bool" where
  \<comment> \<open>A cache object after its one establishment attempt was rejected with \<open>e\<close>; the
      assignment to \<open>globalThis._mongoose\<close> was never reached.\<close>
  "failed_cache c e =
     (conn c = None \<and> promise c = Some 0 \<and> promises c = [Rejected e] \<and> \<not> global_cache c)"

subsection \<open>Interleaved calls and module re-evaluation\<close>

text \<open>
  \<open>cached\<close> is an object: the module binds it when it is evaluated, to
  \<open>globalThis._mongoose\<close> if that is set and to a fresh \<open>{ conn: null, promise: null }\<close>
  otherwise, and a call that is suspended keeps the object of the module evaluation that
  it was made in. A process is therefore a store of cache objects, the index of the
  object that the current module evaluation is bound to, and the state of every call.
  \<open>globalThis._mongoose\<close> is the object whose \<open>global_cache\<close> flag is set; a call that
  reaches the assignment after its \<open>await\<close> sets the flag of its own object and the
  assignment takes it from every other one.

  One step is a call running up to its \<open>await\<close>, the driver settling a pending promise,
  a suspended call running to its end, or a re-evaluation of the module (a hot reload).
  A schedule is a list of steps; every interleaving is some schedule.
\<close>

datatype caller = Idle | Waiting nat nat | Done outcome

datatype action =
    Call nat "string option"
  | Settle nat nat promise_state
  | Resume nat
  | Reload

record process =
  caches :: "mongoose_cache list"
  current :: nat
  callers :: "nat \<Rightarrow> caller"

definition published :: "mongoose_cache list \<Rightarrow> nat option" where
  \<comment> \<open>\<open>globalThis._mongoose\<close>\<close>
  "published cs =
     (case filter (\<lambda>k. global_cache (cs ! k)) [0..<length cs] of [] \<Rightarrow> None | k # _ \<Rightarrow> Some k)"

definition publish :: "nat \<Rightarrow> mongoose_cache \<Rightarrow> mongoose_cache list \<Rightarrow> mongoose_cache list" where
  \<comment> \<open>\<open>globalThis._mongoose = cached\<close>, run by a call on object \<open>k\<close> that leaves it as \<open>c\<close>.\<close>
  "publish k c cs = (map (\<lambda>x. x\<lparr>global_cache := False\<rparr>) cs)[k := c]"

definition step :: "process \<Rightarrow> action \<Rightarrow> process" where
  "step s a =
     (case a of
        Call i uri \<Rightarrow>
          (if callers s i = Idle \<and> current s < length (caches s) then
             (let (out, c) = connectToDatabase uri (caches s ! current s)
              in s\<lparr>caches := (caches s)[current s := c],
                    callers := (callers s)
                      (i := (case out of Await p \<Rightarrow> Waiting (current s) p | _ \<Rightarrow> Done out))\<rparr>)
           else s)
      | Settle k p r \<Rightarrow>
          (if k < length (caches s) \<and> p < length (promises (caches s ! k)) \<and>
              promises (caches s ! k) ! p = Pending \<and> r \<noteq> Pending
           then s\<lparr>caches := (caches s)
                  [k := (caches s ! k)\<lparr>promises := (promises (caches s ! k))[p := r]\<rparr>]\<rparr>
           else s)
      | Resume i \<Rightarrow>
          (case callers s i of
             Waiting k p \<Rightarrow>
               (if k < length (caches s) then
                  (case connectToDatabase_resume p (caches s ! k) of
                     None \<Rightarrow> s
                   | Some (out, c) \<Rightarrow>
                       s\<lparr>caches := (case out of Return _ \<Rightarrow> publish k c (caches s)
                                     | _ \<Rightarrow> (caches s)[k := c]),
                         callers := (callers s)(i := Done out)\<rparr>)
                else s)
           | _ \<Rightarrow> s)
      | Reload \<Rightarrow>
          (case published (caches s) of
             Some g \<Rightarrow> s\<lparr>current := g\<rparr>
           | None \<Rightarrow> s\<lparr>caches := caches s @ [initial_cache], current := length (caches s)\<rparr>))"

definition run :: "process \<Rightarrow> action list \<Rightarrow> process" where
  "run s as = foldl step s as"

definition initial :: process where
  \<comment> \<open>The first evaluation of the module, with \<open>globalThis._mongoose\<close> undefined.\<close>
  "initial = \<lparr>caches = [initial_cache], current = 0, callers = (\<lambda>_. Idle)\<rparr>"

definition establishments :: "process \<Rightarrow> nat" where
  \<comment> \<open>The number of calls of \<open>mongoose.connect\<close> so far.\<close>
  "establishments s = sum_list (map (\<lambda>c. length (promises c)) (caches s))"


definition failed_outcomes :: "nat \<Rightarrow> conn_error \<Rightarrow> caller set" where
  "failed_outcomes k e = {Idle, Waiting k 0, Done (Throw e), Done (Throw MissingUri)}"

section \<open>Lemmas on slug generation\<close>

lemma hyphen_nonslug: "is_hyphen c \<Longrightarrow> \<not> is_slug_char c"
  by (simp add: is_hyphen_def is_slug_char_def)

lemma space_nonslug: "is_space c \<Longrightarrow> \<not> is_slug_char c"
  by (auto simp: is_space_def is_slug_char_def Let_def)

lemma replace_runs_keep:
  "\<forall>c \<in> set w. \<not> P c \<Longrightarrow> replace_runs P r (w @ t) = w @ replace_runs P r t"
  by (induction w) auto

lemma replace_runs_hit:
  "P c \<Longrightarrow> replace_runs P r (c # cs) = r @ replace_runs P r (dropWhile P cs)"
  by simp

lemma dropWhile_replace_nonslug:
  "dropWhile is_hyphen (replace_runs nonslug ''-'' s) =
   dropWhile is_hyphen (replace_runs nonslug ''-'' (dropWhile nonslug s))"
  by (cases s) (auto simp: is_hyphen_def)

lemma replace_nonslug_head:
  "s = [] \<or> is_slug_char (hd s) \<Longrightarrow>
   replace_runs nonslug ''-'' s = [] \<or> \<not> is_hyphen (hd (replace_runs nonslug ''-'' s))"
  by (cases s) (auto dest: hyphen_nonslug)

lemma dropWhile_nonslug_head: "dropWhile nonslug s = [] \<or> is_slug_char (hd (dropWhile nonslug s))"
  by (metis (mono_tags, lifting) hd_dropWhile)

lemma words_of_dropWhile: "words_of (dropWhile nonslug s) = words_of s"
  by (induction s) auto

lemma strip_end_append:
  "strip_end (xs @ ys) = (if strip_end ys = [] then strip_end xs else xs @ strip_end ys)"
  by (auto simp: strip_end_def dropWhile_append)

lemma strip_end_keep: "s \<noteq> [] \<Longrightarrow> \<not> is_hyphen (last s) \<Longrightarrow> strip_end s = s"
  by (cases s rule: rev_cases) (auto simp: strip_end_def)

lemma strip_end_Nil [simp]: "strip_end [] = []"
  by (simp add: strip_end_def)

lemma words_of_nonempty: "w \<in> set (words_of s) \<Longrightarrow> w \<noteq> []"
  by (induction s rule: words_of.induct) (auto split: if_splits)

lemma words_of_slug_chars: "w \<in> set (words_of s) \<Longrightarrow> x \<in> set w \<Longrightarrow> is_slug_char x"
proof (induction s rule: words_of.induct)
  case 1
  then show ?case by simp
next
  case (2 c cs)
  show ?case
  proof (cases "is_slug_char c")
    case False
    with 2 show ?thesis by simp
  next
    case True
    with 2(3) have "w = c # takeWhile is_slug_char cs \<or> w \<in> set (words_of (dropWhile is_slug_char cs))"
      by simp
    then show ?thesis
    proof
      assume "w = c # takeWhile is_slug_char cs"
      with 2(4) True show ?thesis by (auto dest: set_takeWhileD)
    next
      assume "w \<in> set (words_of (dropWhile is_slug_char cs))"
      with 2(1) [OF True] 2(4) show ?thesis by simp
    qed
  qed
qed

lemma join_hyphen_Cons:
  "join_hyphen (w # ws) = (if ws = [] then w else w @ CHR ''-'' # join_hyphen ws)"
  by (cases ws) auto

lemma join_hyphen_empty: "\<forall>w \<in> set ws. w \<noteq> [] \<Longrightarrow> join_hyphen ws = [] \<longleftrightarrow> ws = []"
  by (cases ws) (auto simp: join_hyphen_Cons)

lemma strip_hyphens_core: "strip_hyphens (replace_runs nonslug ''-'' s) = strip_core s"
  by (simp add: strip_hyphens_def strip_core_def strip_end_def)

lemma strip_core_skip: "strip_core (dropWhile nonslug s) = strip_core s"
  unfolding strip_core_def using dropWhile_replace_nonslug [of s] by simp

lemma strip_end_replace_rest:
  assumes "rest = [] \<or> \<not> is_slug_char (hd rest)"
  shows "strip_end (replace_runs nonslug ''-'' rest) =
         (if strip_core rest = [] then [] else CHR ''-'' # strip_core rest)"
proof (cases rest)
  case Nil
  then show ?thesis by (simp add: strip_core_def)
next
  case (Cons d ds)
  with assms have nd: "\<not> is_slug_char d" by simp
  let ?Y = "replace_runs nonslug ''-'' (dropWhile nonslug ds)"
  have R: "replace_runs nonslug ''-'' rest = CHR ''-'' # ?Y"
    using Cons nd by simp
  have "?Y = [] \<or> \<not> is_hyphen (hd ?Y)"
    by (rule replace_nonslug_head) (rule dropWhile_nonslug_head)
  then have dY: "dropWhile is_hyphen ?Y = ?Y"
    by (cases ?Y) auto
  have core: "strip_core rest = strip_end ?Y"
    unfolding strip_core_def R using dY by (simp add: is_hyphen_def)
  have "strip_end (CHR ''-'' # ?Y) = (if strip_end ?Y = [] then [] else CHR ''-'' # strip_end ?Y)"
    using strip_end_append [of "''-''" ?Y] by (simp add: strip_end_def is_hyphen_def)
  then show ?thesis
    using R core by simp
qed

lemma strip_core_words: "strip_core s = join_hyphen (words_of s)"
proof (induction s rule: words_of.induct)
  case 1
  show ?case by (simp add: strip_core_def)
next
  case (2 c cs)
  show ?case
  proof (cases "is_slug_char c")
    case False
    have "strip_core (c # cs) = strip_core (dropWhile nonslug (c # cs))"
      by (simp only: strip_core_skip)
    also have "\<dots> = strip_core (dropWhile nonslug cs)"
      using False by simp
    also have "\<dots> = strip_core cs"
      by (rule strip_core_skip)
    finally show ?thesis
      using False 2 by simp
  next
    case True
    let ?w = "c # takeWhile is_slug_char cs"
    let ?rest = "dropWhile is_slug_char cs"
    have IH: "strip_core ?rest = join_hyphen (words_of ?rest)"
      using 2 True by simp
    have split: "c # cs = ?w @ ?rest" by simp
    have wok: "\<forall>x \<in> set ?w. \<not> nonslug x"
      using True by (auto dest: set_takeWhileD)
    have R: "replace_runs nonslug ''-'' (c # cs) = ?w @ replace_runs nonslug ''-'' ?rest"
      using replace_runs_keep [OF wok, of "''-''" ?rest] by simp
    have nh: "\<not> is_hyphen c"
      using True hyphen_nonslug by blast
    have core: "strip_core (c # cs) = strip_end (?w @ replace_runs nonslug ''-'' ?rest)"
      unfolding strip_core_def R using nh by simp
    have "last ?w \<in> set ?w" by (rule last_in_set) simp
    then have "is_slug_char (last ?w)" using wok by blast
    then have keep: "strip_end ?w = ?w"
      using strip_end_keep [of ?w] hyphen_nonslug by blast
    have rest_head: "?rest = [] \<or> \<not> is_slug_char (hd ?rest)"
      using hd_dropWhile [of is_slug_char cs] by blast
    have "strip_core (c # cs) =
          (if strip_core ?rest = [] then ?w else ?w @ CHR ''-'' # strip_core ?rest)"
      unfolding core strip_end_append strip_end_replace_rest [OF rest_head]
      using keep by simp
    moreover have "join_hyphen (words_of ?rest) = [] \<longleftrightarrow> words_of ?rest = []"
      by (rule join_hyphen_empty) (blast dest: words_of_nonempty)
    ultimately show ?thesis
      using True IH by (simp add: join_hyphen_Cons)
  qed
qed

lemma slug_words_words_of: "slug_words (words_of s)"
  unfolding slug_words_def using words_of_nonempty words_of_slug_chars by blast

lemma slug_words_Cons:
  "slug_words (w # ws) \<longleftrightarrow> w \<noteq> [] \<and> (\<forall>c \<in> set w. is_slug_char c) \<and> slug_words ws"
  by (auto simp: slug_words_def)

lemma join_hyphen_head:
  "slug_words ws \<Longrightarrow> ws \<noteq> [] \<Longrightarrow> join_hyphen ws \<noteq> [] \<and> is_slug_char (hd (join_hyphen ws))"
  by (cases ws) (auto simp: join_hyphen_Cons slug_words_Cons hd_append)

lemma collapse_join: "slug_words ws \<Longrightarrow> replace_runs is_hyphen ''-'' (join_hyphen ws) = join_hyphen ws"
proof (induction ws)
  case Nil
  show ?case by simp
next
  case (Cons w ws)
  then have w: "\<forall>c \<in> set w. \<not> is_hyphen c" and ws: "slug_words ws"
    using hyphen_nonslug by (auto simp: slug_words_Cons)
  show ?case
  proof (cases "ws = []")
    case True
    then show ?thesis
      using replace_runs_keep [OF w, of "''-''" "[]"] by simp
  next
    case False
    with ws have "\<not> is_hyphen (hd (join_hyphen ws))" and "join_hyphen ws \<noteq> []"
      using join_hyphen_head hyphen_nonslug by blast+
    then have "dropWhile is_hyphen (join_hyphen ws) = join_hyphen ws"
      by (cases "join_hyphen ws") auto
    moreover have "is_hyphen CHR ''-''"
      by (simp add: is_hyphen_def)
    ultimately have "replace_runs is_hyphen ''-'' (CHR ''-'' # join_hyphen ws) = CHR ''-'' # join_hyphen ws"
      using Cons.IH [OF ws] by simp
    then show ?thesis
      using False replace_runs_keep [OF w, of "''-''" "CHR ''-'' # join_hyphen ws"]
      by (simp add: join_hyphen_Cons)
  qed
qed

lemma words_of_append_nonslug:
  "\<forall>c \<in> set t. \<not> is_slug_char c \<Longrightarrow> words_of (s @ t) = words_of s"
proof (induction s rule: words_of.induct)
  case 1
  then show ?case by (induction t) auto
next
  case (2 c cs)
  show ?case
  proof (cases "is_slug_char c")
    case False
    with 2 show ?thesis by simp
  next
    case True
    have tw: "takeWhile is_slug_char t = []" and dw: "dropWhile is_slug_char t = t"
      using 2(3) by (cases t; simp)+
    show ?thesis
    proof (cases "\<forall>x \<in> set cs. is_slug_char x")
      case all: True
      have a: "takeWhile is_slug_char (cs @ t) = cs"
        using all tw by (simp add: takeWhile_append)
      have b: "dropWhile is_slug_char (cs @ t) = t"
        using all dw by (simp add: dropWhile_append)
      have c: "takeWhile is_slug_char cs = cs"
        using all by simp
      have d: "dropWhile is_slug_char cs = []"
        using all by simp
      have e: "words_of t = []"
        using 2(3) by (induction t) auto
      show ?thesis using True by (simp add: a b c d e)
    next
      case False
      then have "takeWhile is_slug_char (cs @ t) = takeWhile is_slug_char cs"
        "dropWhile is_slug_char (cs @ t) = dropWhile is_slug_char cs @ t"
        by (auto simp: takeWhile_append dropWhile_append)
      then show ?thesis
        using True 2(1) [OF True 2(3)] by simp
    qed
  qed
qed

lemma trimEnd_decomp: "\<exists>t. s = trimEnd s @ t \<and> (\<forall>c \<in> set t. is_space c)"
proof -
  have "rev s = takeWhile is_space (rev s) @ dropWhile is_space (rev s)" by simp
  then have "s = trimEnd s @ rev (takeWhile is_space (rev s))"
    unfolding trimEnd_def by (metis rev_append rev_rev_ident)
  moreover have "\<forall>c \<in> set (rev (takeWhile is_space (rev s))). is_space c"
    by (auto dest: set_takeWhileD)
  ultimately show ?thesis by blast
qed

lemma words_of_trimEnd: "words_of (trimEnd s) = words_of s"
proof -
  obtain t where t: "s = trimEnd s @ t" "\<forall>c \<in> set t. is_space c"
    using trimEnd_decomp by blast
  then have "\<forall>c \<in> set t. \<not> is_slug_char c" using space_nonslug by blast
  from words_of_append_nonslug [OF this, of "trimEnd s"] t(1) show ?thesis by simp
qed

lemma words_of_trimStart: "words_of (trimStart s) = words_of s"
  unfolding trimStart_def by (induction s) (auto dest: space_nonslug)

lemma words_of_trim: "words_of (trim s) = words_of s"
  by (simp add: trim_def words_of_trimEnd words_of_trimStart)

lemma slugify_words: "slugify s = join_hyphen (words_of (toLowerCase s))"
  unfolding slugify_def strip_hyphens_core strip_core_words words_of_trim
  by (rule collapse_join) (rule slug_words_words_of)

lemma lower_char_slug: "is_slug_char c \<Longrightarrow> lower_char c = c"
  by (auto simp: is_slug_char_def lower_char_def Let_def)

lemma lower_char_hyphen: "lower_char CHR ''-'' = CHR ''-''"
  by (simp add: lower_char_def)

lemma toLowerCase_join: "slug_words ws \<Longrightarrow> toLowerCase (join_hyphen ws) = join_hyphen ws"
proof (induction ws)
  case Nil
  show ?case by (simp add: toLowerCase_def)
next
  case (Cons w ws)
  then have "map lower_char w = w" and "toLowerCase (join_hyphen ws) = join_hyphen ws"
    by (auto simp: slug_words_Cons lower_char_slug map_idI)
  then show ?case
    by (simp add: join_hyphen_Cons toLowerCase_def lower_char_hyphen)
qed

lemma words_of_slug_word:
  "w \<noteq> [] \<Longrightarrow> \<forall>c \<in> set w. is_slug_char c \<Longrightarrow> t = [] \<or> \<not> is_slug_char (hd t) \<Longrightarrow>
   words_of (w @ t) = w # words_of t"
proof -
  assume w: "w \<noteq> []" "\<forall>c \<in> set w. is_slug_char c" and t: "t = [] \<or> \<not> is_slug_char (hd t)"
  from w obtain c cs where wc: "w = c # cs" by (cases w) auto
  have tw: "takeWhile is_slug_char t = []" and dw: "dropWhile is_slug_char t = t"
    using t by (cases t; simp)+
  have "takeWhile is_slug_char (cs @ t) = cs" "dropWhile is_slug_char (cs @ t) = t"
    using w wc tw dw by (simp_all add: takeWhile_append dropWhile_append)
  then show ?thesis using w wc by simp
qed

lemma words_of_join: "slug_words ws \<Longrightarrow> words_of (join_hyphen ws) = ws"
proof (induction ws)
  case Nil
  show ?case by simp
next
  case (Cons w ws)
  then have w: "w \<noteq> []" "\<forall>c \<in> set w. is_slug_char c" and IH: "words_of (join_hyphen ws) = ws"
    by (auto simp: slug_words_Cons)
  show ?case
  proof (cases "ws = []")
    case True
    then show ?thesis using words_of_slug_word [OF w, of "[]"] by simp
  next
    case False
    have "words_of (w @ CHR ''-'' # join_hyphen ws) = w # words_of (CHR ''-'' # join_hyphen ws)"
      by (rule words_of_slug_word [OF w]) (simp add: is_slug_char_def)
    also have "words_of (CHR ''-'' # join_hyphen ws) = ws"
      using IH by (simp add: is_slug_char_def)
    finally show ?thesis using False by (simp add: join_hyphen_Cons)
  qed
qed

lemma join_hyphen_alphabet:
  "slug_words ws \<Longrightarrow> c \<in> set (join_hyphen ws) \<Longrightarrow> is_slug_char c \<or> c = CHR ''-''"
proof (induction ws)
  case Nil
  then show ?case by simp
next
  case (Cons w ws)
  then show ?case
    by (cases "ws = []") (auto simp: join_hyphen_Cons slug_words_Cons)
qed

lemma join_hyphen_last:
  "slug_words ws \<Longrightarrow> ws \<noteq> [] \<Longrightarrow> is_slug_char (last (join_hyphen ws))"
proof (induction ws)
  case Nil
  then show ?case by simp
next
  case (Cons w ws)
  show ?case
  proof (cases "ws = []")
    case True
    with Cons.prems show ?thesis by (simp add: slug_words_Cons)
  next
    case False
    with Cons have "is_slug_char (last (join_hyphen ws))" "join_hyphen ws \<noteq> []"
      using join_hyphen_head [of ws] by (auto simp: slug_words_Cons)
    with False show ?thesis by (simp add: join_hyphen_Cons)
  qed
qed

lemma join_hyphen_no_double:
  "slug_words ws \<Longrightarrow> join_hyphen ws \<noteq> a @ ''--'' @ b"
proof (induction ws arbitrary: a)
  case Nil
  show ?case by simp
next
  case (Cons w ws)
  then have w: "\<forall>c \<in> set w. is_slug_char c" and ws: "slug_words ws"
    by (auto simp: slug_words_Cons)
  have nh: "\<not> is_slug_char CHR ''-''" by (simp add: is_slug_char_def)
  show ?case
  proof
    assume eq: "join_hyphen (w # ws) = a @ ''--'' @ b"
    show False
    proof (cases "ws = []")
      case True
      with eq have "CHR ''-'' \<in> set w" by simp
      with w nh show False by blast
    next
      case False
      let ?J = "join_hyphen ws"
      from ws False have J: "?J \<noteq> []" "is_slug_char (hd ?J)"
        using join_hyphen_head by blast+
      from eq False have "w @ CHR ''-'' # ?J = a @ CHR ''-'' # CHR ''-'' # b"
        by (simp add: join_hyphen_Cons)
      then obtain us where
        "w = a @ us \<and> us @ CHR ''-'' # ?J = CHR ''-'' # CHR ''-'' # b \<or>
         w @ us = a \<and> CHR ''-'' # ?J = us @ CHR ''-'' # CHR ''-'' # b"
        by (auto simp: append_eq_append_conv2)
      then show False
      proof
        assume c1: "w = a @ us \<and> us @ CHR ''-'' # ?J = CHR ''-'' # CHR ''-'' # b"
        show False
        proof (cases us)
          case Nil
          with c1 have "?J = CHR ''-'' # b" by simp
          with J nh show False by simp
        next
          case (Cons u us')
          with c1 have "u = CHR ''-''" "u \<in> set w" by auto
          with w nh show False by blast
        qed
      next
        assume c2: "w @ us = a \<and> CHR ''-'' # ?J = us @ CHR ''-'' # CHR ''-'' # b"
        show False
        proof (cases us)
          case Nil
          with c2 have "?J = CHR ''-'' # b" by simp
          with J nh show False by simp
        next
          case (Cons u us')
          with c2 have "?J = us' @ ''--'' @ b" by simp
          with Cons.IH [OF ws, of us'] show False by simp
        qed
      qed
    qed
  qed
qed

lemma slugify_examples:
  "slugify '''' = ''''"
  "slugify ''Hello, World!  Foo'' = ''hello-world-foo''"
  "slugify ''  --Multi---Space--  '' = ''multi-space''"
  by code_simp+

section \<open>Lemmas on time normalisation\<close>

lemma of_char_digit: "d < 10 \<Longrightarrow> (of_char (digit_char d) :: nat) = 48 + d"
  by (simp add: digit_char_def)

lemma digit_is_digit: "d < 10 \<Longrightarrow> is_digit (digit_char d)"
  by (simp add: is_digit_def of_char_digit)

lemma digit_not_space: "is_digit c \<Longrightarrow> \<not> is_space c"
  by (auto simp: is_digit_def is_space_def Let_def)

lemma digit_not_colon: "is_digit c \<Longrightarrow> c \<noteq> CHR '':''"
  by (auto simp: is_digit_def)

lemma space_not_colon: "is_space c \<Longrightarrow> c \<noteq> CHR '':''"
  by (auto simp: is_space_def)

lemma lower_digit: "is_digit c \<Longrightarrow> lower_char c = c"
  by (auto simp: is_digit_def lower_char_def Let_def)

lemma lower_space: "is_space c \<Longrightarrow> lower_char c = c"
  by (auto simp: is_space_def lower_char_def Let_def)

lemma lower_colon: "lower_char CHR '':'' = CHR '':''"
  by (simp add: lower_char_def)

lemma is_digit_ex: "is_digit c \<Longrightarrow> \<exists>d < 10. c = digit_char d"
proof -
  assume c: "is_digit c"
  let ?d = "(of_char c :: nat) - 48"
  have "?d < 10" using c by (auto simp: is_digit_def Let_def)
  moreover have "48 + ?d = of_char c" using c by (auto simp: is_digit_def Let_def)
  then have "digit_char ?d = c" by (simp add: digit_char_def)
  ultimately show ?thesis by metis
qed

lemma parseInt_1: "a < 10 \<Longrightarrow> parseInt [digit_char a] = a"
  by (simp add: parseInt_def of_char_digit)

lemma parseInt_2: "a < 10 \<Longrightarrow> b < 10 \<Longrightarrow> parseInt [digit_char a, digit_char b] = 10 * a + b"
  by (simp add: parseInt_def of_char_digit)

lemma parseInt_two_digits: "n < 100 \<Longrightarrow> parseInt (two_digits n) = n"
  by (simp add: two_digits_def parseInt_2)

lemma String_nat_small: "n < 10 \<Longrightarrow> String_nat n = [digit_char n]"
  by (simp add: String_nat.simps)

lemma String_nat_two: "10 \<le> n \<Longrightarrow> n < 100 \<Longrightarrow> String_nat n = two_digits n"
  by (subst String_nat.simps) (simp add: String_nat_small two_digits_def)

lemma digit_char_0: "digit_char 0 = CHR ''0''"
  by code_simp

lemma pad_two_digits: "n < 100 \<Longrightarrow> padStart 2 CHR ''0'' (String_nat n) = two_digits n"
proof (cases "n < 10")
  case True
  then show ?thesis
    by (simp add: String_nat_small padStart_def two_digits_def digit_char_0)
next
  case False
  assume "n < 100"
  with False show ?thesis
    by (simp add: String_nat_two padStart_def two_digits_def)
qed

lemma format_hhmm_canonical: "h < 100 \<Longrightarrow> m < 100 \<Longrightarrow> format_hhmm h m = hhmm h m"
  by (simp add: format_hhmm_def hhmm_def pad_two_digits)

lemma trim_id: "s \<noteq> [] \<Longrightarrow> \<not> is_space (hd s) \<Longrightarrow> \<not> is_space (last s) \<Longrightarrow> trim s = s"
proof -
  assume s: "s \<noteq> []" "\<not> is_space (hd s)" "\<not> is_space (last s)"
  then have "trimStart s = s"
    by (cases s) (auto simp: trimStart_def)
  moreover have "trimEnd s = s"
    using s by (cases s rule: rev_cases) (auto simp: trimEnd_def)
  ultimately show ?thesis by (simp add: trim_def)
qed

lemma group1_prefix:
  "s = takeWhile is_digit (take 2 s) @ drop (length (takeWhile is_digit (take 2 s))) s"
proof -
  let ?g = "takeWhile is_digit (take 2 s)"
  have "take 2 s = ?g @ dropWhile is_digit (take 2 s)" by simp
  then have "take (length ?g) (take 2 s) = ?g"
    by (metis append_eq_conv_conj)
  moreover have "length ?g \<le> 2"
    by (rule order_trans [OF length_takeWhile_le]) simp
  ultimately have "take (length ?g) s = ?g"
    by (simp add: min_def)
  then show ?thesis
    by (metis append_take_drop_id)
qed

lemma group1_props:
  "length (takeWhile is_digit (take 2 s)) \<le> 2 \<and> list_all is_digit (takeWhile is_digit (take 2 s))"
proof
  show "length (takeWhile is_digit (take 2 s)) \<le> 2"
    by (rule order_trans [OF length_takeWhile_le]) simp
  show "list_all is_digit (takeWhile is_digit (take 2 s))"
    by (auto simp: list_all_iff dest: set_takeWhileD)
qed

lemma group1_greedy:
  assumes "ds \<noteq> []" "length ds \<le> 2" "list_all is_digit ds" "r \<noteq> []" "\<not> is_digit (hd r)"
  shows "takeWhile is_digit (take 2 (ds @ r)) = ds"
proof -
  from assms(1,2) consider a where "ds = [a]" | a b where "ds = [a, b]"
    by (cases ds; cases "tl ds"; cases "tl (tl ds)") auto
  then show ?thesis
  proof cases
    case 1
    with assms(3,4,5) show ?thesis by (cases r) (auto simp: numeral_2_eq_2)
  next
    case 2
    with assms(3) show ?thesis by (auto simp: numeral_2_eq_2)
  qed
qed

lemma match_h24_sound: "match_h24 t = Some (ds, ms) \<Longrightarrow> shape24 t ds ms"
proof -
  assume m: "match_h24 t = Some (ds, ms)"
  let ?g = "takeWhile is_digit (take 2 t)"
  let ?r = "drop (length ?g) t"
  from m have g: "?g \<noteq> []" and r: "?r = CHR '':'' # ms" and ds: "ds = ?g"
    and ms: "length ms = 2" "list_all is_digit ms"
    by (auto simp: match_h24_def Let_def split: if_splits list.splits)
  have "t = ?g @ ?r" by (rule group1_prefix)
  with r have "t = ds @ '':'' @ ms" using ds by simp
  then show ?thesis
    unfolding shape24_def using g ds ms group1_props [of t] by simp
qed

lemma match_h24_complete: "shape24 t ds ms \<Longrightarrow> match_h24 t = Some (ds, ms)"
proof -
  assume sh: "shape24 t ds ms"
  then have t: "t = ds @ CHR '':'' # ms" and ds: "ds \<noteq> []" "length ds \<le> 2" "list_all is_digit ds"
    and ms: "length ms = 2" "list_all is_digit ms"
    by (auto simp: shape24_def)
  have "\<not> is_digit CHR '':''" by (simp add: is_digit_def)
  then have g: "takeWhile is_digit (take 2 t) = ds"
    unfolding t using group1_greedy [OF ds, of "CHR '':'' # ms"] by simp
  show ?thesis
    unfolding match_h24_def g Let_def using ds ms by (simp add: t)
qed

lemma match_h24_iff: "match_h24 t = Some (ds, ms) \<longleftrightarrow> shape24 t ds ms"
  using match_h24_sound match_h24_complete by blast

lemma match_h12_sound:
  assumes m: "match_h12 t = Some (ds, mo, period)"
  shows "\<exists>sp. shape12 t ds mo sp period"
proof -
  let ?g = "takeWhile is_digit (take 2 t)"
  let ?r = "drop (length ?g) t"
  define p where "p =
       (case ?r of [] \<Rightarrow> (None, ?r)
        | c # u \<Rightarrow> if c = CHR '':'' \<and> length (take 2 u) = 2 \<and> list_all is_digit (take 2 u)
                    then (Some (take 2 u), drop 2 u) else (None, ?r))"
  define g2 where "g2 = fst p"
  define r2 where "r2 = snd p"
  have gr: "(g2, r2) =
       (case ?r of [] \<Rightarrow> (None, ?r)
        | c # u \<Rightarrow> if c = CHR '':'' \<and> length (take 2 u) = 2 \<and> list_all is_digit (take 2 u)
                    then (Some (take 2 u), drop 2 u) else (None, ?r))"
    unfolding g2_def r2_def p_def [symmetric] by simp
  from m have g: "?g \<noteq> []" and ds: "ds = ?g" and mo: "mo = g2"
    and per: "period = dropWhile is_space r2" "period = ''am'' \<or> period = ''pm''"
    unfolding match_h12_def Let_def gr [symmetric]
    by (auto split: if_splits)
  have r: "?r = minute_part mo @ r2 \<and>
           (case mo of None \<Rightarrow> True | Some ms \<Rightarrow> length ms = 2 \<and> list_all is_digit ms)"
  proof (cases ?r)
    case Nil
    with gr mo show ?thesis by (simp add: minute_part_def)
  next
    case (Cons c u)
    define b where "b = (c = CHR '':'' \<and> length (take 2 u) = 2 \<and> list_all is_digit (take 2 u))"
    have gr': "(g2, r2) = (if b then (Some (take 2 u), drop 2 u) else (None, c # u))"
      unfolding gr b_def Cons by simp
    show ?thesis
    proof (cases b)
      case True
      with gr' mo have "mo = Some (take 2 u)" "r2 = drop 2 u" by simp_all
      moreover from True have "c = CHR '':''" "length (take 2 u) = 2" "list_all is_digit (take 2 u)"
        by (simp_all add: b_def)
      ultimately show ?thesis
        unfolding Cons by (simp add: minute_part_def)
    next
      case False
      with gr' mo have "mo = None" "r2 = c # u" by simp_all
      then show ?thesis
        unfolding Cons by (simp add: minute_part_def)
    qed
  qed
  have "r2 = takeWhile is_space r2 @ period" using per by simp
  moreover have "t = ?g @ ?r" by (rule group1_prefix)
  ultimately have "t = ds @ minute_part mo @ takeWhile is_space r2 @ period"
    using r ds by (metis append_assoc)
  moreover have "list_all is_space (takeWhile is_space r2)"
    by (auto simp: list_all_iff dest: set_takeWhileD)
  ultimately have "shape12 t ds mo (takeWhile is_space r2) period"
    unfolding shape12_def using g ds r per group1_props [of t] by simp
  then show ?thesis ..
qed

lemma period_facts:
  assumes "period = ''am'' \<or> period = ''pm''"
  shows "period \<noteq> []" "\<not> is_space (hd period)" "\<not> is_digit (hd period)" "hd period \<noteq> CHR '':''"
    "dropWhile is_space period = period"
  using assms by (auto simp: is_space_def is_digit_def)

lemma dropWhile_spaces_period:
  assumes "list_all is_space sp" "period = ''am'' \<or> period = ''pm''"
  shows "dropWhile is_space (sp @ period) = period"
proof -
  have "dropWhile is_space (sp @ period) = dropWhile is_space period"
    using assms(1) by (intro dropWhile_append2) (simp add: list_all_iff)
  then show ?thesis using period_facts(5) [OF assms(2)] by simp
qed

lemma spaces_period_head:
  assumes "list_all is_space sp" "period = ''am'' \<or> period = ''pm''"
  shows "sp @ period \<noteq> []" "\<not> is_digit (hd (sp @ period))" "hd (sp @ period) \<noteq> CHR '':''"
proof -
  show "sp @ period \<noteq> []" using period_facts(1) [OF assms(2)] by simp
  show "\<not> is_digit (hd (sp @ period))"
    using assms(1) period_facts(3) [OF assms(2)] digit_not_space by (cases sp) auto
  show "hd (sp @ period) \<noteq> CHR '':''"
    using assms(1) period_facts(4) [OF assms(2)] space_not_colon by (cases sp) auto
qed

lemma match_h12_complete:
  assumes sh: "shape12 t ds mo sp period"
  shows "match_h12 t = Some (ds, mo, period)"
proof -
  from sh have t: "t = ds @ minute_part mo @ sp @ period"
    and ds: "ds \<noteq> []" "length ds \<le> 2" "list_all is_digit ds"
    and mo: "case mo of None \<Rightarrow> True | Some ms \<Rightarrow> length ms = 2 \<and> list_all is_digit ms"
    and sp: "list_all is_space sp" and per: "period = ''am'' \<or> period = ''pm''"
    by (auto simp: shape12_def)
  let ?rest = "minute_part mo @ sp @ period"
  note sph = spaces_period_head [OF sp per]
  have nd: "\<not> is_digit CHR '':''" by (simp add: is_digit_def)
  have rest: "?rest \<noteq> []" "\<not> is_digit (hd ?rest)"
    using sph nd by (cases mo; simp add: minute_part_def)+
  have g: "takeWhile is_digit (take 2 t) = ds"
    unfolding t by (rule group1_greedy [OF ds rest])
  have r1: "drop (length ds) t = ?rest"
    unfolding t by simp
  have dw: "dropWhile is_space (sp @ period) = period"
    by (rule dropWhile_spaces_period [OF sp per])
  show ?thesis
  proof (cases mo)
    case None
    obtain c u where cu: "sp @ period = c # u" using sph(1) by (cases "sp @ period") auto
    then have "c \<noteq> CHR '':''" using sph(3) by simp
    then show ?thesis
      unfolding match_h12_def g r1 Let_def using ds per dw cu None
      by (simp add: minute_part_def)
  next
    case (Some ms)
    with mo have ms: "length ms = 2" "list_all is_digit ms" by simp_all
    then have tk: "take 2 (ms @ sp @ period) = ms" "drop 2 (ms @ sp @ period) = sp @ period"
      by simp_all
    show ?thesis
      unfolding match_h12_def g r1 Let_def using ds per dw Some ms tk
      by (simp add: minute_part_def)
  qed
qed

lemma match_h12_iff:
  "match_h12 t = Some (ds, mo, period) \<longleftrightarrow> (\<exists>sp. shape12 t ds mo sp period)"
  using match_h12_sound match_h12_complete by blast

lemma shape24_not_h12: "shape24 t ds ms \<Longrightarrow> \<not> shape12 t ds' mo sp period"
proof
  assume a: "shape24 t ds ms" and b: "shape12 t ds' mo sp period"
  from a have "t \<noteq> []" "is_digit (last t)"
    by (auto simp: shape24_def list_all_iff)
  moreover from b have "last t = CHR ''m''"
    by (auto simp: shape12_def)
  ultimately show False by (simp add: is_digit_def)
qed

lemma two_digits_props:
  "n < 100 \<Longrightarrow> length (two_digits n) = 2 \<and> list_all is_digit (two_digits n)"
  by (simp add: two_digits_def digit_is_digit)

lemma hour_digits_props:
  assumes "hour_digits h hs" "h < 100"
  shows "hs \<noteq> []" "length hs \<le> 2" "list_all is_digit hs" "parseInt hs = h"
  using assms
  by (auto simp: hour_digits_def two_digits_def digit_is_digit parseInt_1 parseInt_2)

lemma toLowerCase_digits: "list_all is_digit ds \<Longrightarrow> toLowerCase ds = ds"
  by (simp add: toLowerCase_def list_all_iff lower_digit map_idI)

lemma toLowerCase_spaces: "list_all is_space sp \<Longrightarrow> toLowerCase sp = sp"
  by (simp add: toLowerCase_def list_all_iff lower_space map_idI)

lemma toLowerCase_append: "toLowerCase (a @ b) = toLowerCase a @ toLowerCase b"
  by (simp add: toLowerCase_def)

lemma toLowerCase_colon: "toLowerCase (CHR '':'' # cs) = CHR '':'' # toLowerCase cs"
  by (simp add: toLowerCase_def lower_colon)

lemma meridiem_last:
  assumes "toLowerCase mer = ''am'' \<or> toLowerCase mer = ''pm''"
  shows "mer \<noteq> []" "\<not> is_space (last mer)"
proof -
  from assms obtain x y where xy: "mer = [x, y]" "lower_char y = CHR ''m''"
    by (auto simp: toLowerCase_def)
  show "mer \<noteq> []" using xy by simp
  have "\<not> is_space CHR ''m''" by (simp add: is_space_def)
  then show "\<not> is_space (last mer)"
    using xy lower_space [of y] by auto
qed

lemma normalizeTime_h24:
  assumes "shape24 (toLowerCase (trim s)) ds ms"
  shows "normalizeTime s =
         (if parseInt ds > 23 \<or> parseInt ms > 59 then Inl InvalidTime
          else Inr (format_hhmm (parseInt ds) (parseInt ms)))"
  using match_h24_complete [OF assms] by (simp add: normalizeTime_def Let_def)

lemma normalizeTime_h12:
  assumes "shape12 (toLowerCase (trim s)) ds mo sp period"
  shows "normalizeTime s =
         (let hh = parseInt ds; mm = (case mo of Some m \<Rightarrow> parseInt m | None \<Rightarrow> 0) in
          if hh < 1 \<or> hh > 12 \<or> mm > 59 then Inl InvalidTime
          else Inr (format_hhmm (to24 hh period) mm))"
proof -
  have "match_h24 (toLowerCase (trim s)) = None"
  proof (cases "match_h24 (toLowerCase (trim s))")
    case None
    then show ?thesis .
  next
    case (Some p)
    then have "shape24 (toLowerCase (trim s)) (fst p) (snd p)"
      using match_h24_sound [of _ "fst p" "snd p"] by simp
    with assms shape24_not_h12 show ?thesis by blast
  qed
  moreover have per: "period = ''am'' \<or> period = ''pm''"
    using assms by (simp add: shape12_def)
  ultimately show ?thesis
    using match_h12_complete [OF assms] per
    by (auto simp: normalizeTime_def Let_def to24_def)
qed

lemma normalizeTime_unrecognized:
  "normalizeTime s = Inl UnrecognizedFormat \<longleftrightarrow>
   match_h24 (toLowerCase (trim s)) = None \<and> match_h12 (toLowerCase (trim s)) = None"
  by (auto simp: normalizeTime_def Let_def split: option.splits)

lemma normalizeTime_result:
  assumes "normalizeTime s = Inr r"
  shows "\<exists>h m. h < 24 \<and> m < 60 \<and> r = hhmm h m"
proof (cases "match_h24 (toLowerCase (trim s))")
  case (Some p)
  then have sh: "shape24 (toLowerCase (trim s)) (fst p) (snd p)"
    using match_h24_sound [of _ "fst p" "snd p"] by simp
  from assms normalizeTime_h24 [OF sh]
  have "parseInt (fst p) < 24" "parseInt (snd p) < 60"
    "r = format_hhmm (parseInt (fst p)) (parseInt (snd p))"
    by (auto split: if_splits)
  then show ?thesis
    using format_hhmm_canonical [of "parseInt (fst p)" "parseInt (snd p)"] by auto
next
  case None
  with assms obtain ds mo period where m: "match_h12 (toLowerCase (trim s)) = Some (ds, mo, period)"
    by (cases "match_h12 (toLowerCase (trim s))") (auto simp: normalizeTime_def Let_def)
  then obtain sp where sh: "shape12 (toLowerCase (trim s)) ds mo sp period"
    using match_h12_sound by blast
  let ?hh = "parseInt ds"
  let ?mm = "case mo of Some m \<Rightarrow> parseInt m | None \<Rightarrow> 0"
  from assms normalizeTime_h12 [OF sh]
  have b: "1 \<le> ?hh" "?hh \<le> 12" "?mm < 60" and r: "r = format_hhmm (to24 ?hh period) ?mm"
    by (auto simp: Let_def split: if_splits)
  have "to24 ?hh period < 24" using b by (simp add: to24_def)
  then show ?thesis
    using r b format_hhmm_canonical [of "to24 ?hh period" ?mm] by auto
qed

lemma normalizeTime_24_input:
  assumes "h < 24" "m < 60" "hour_digits h hs"
  shows "normalizeTime (hs @ '':'' @ two_digits m) = Inr (hhmm h m)"
proof -
  let ?s = "hs @ '':'' @ two_digits m"
  note hp = hour_digits_props [OF assms(3), of] 
  have h100: "h < 100" and m100: "m < 100" using assms by simp_all
  note hd = hour_digits_props [OF assms(3) h100]
  note md = two_digits_props [OF m100]
  have "is_digit (hd ?s)" using hd(1,3) by (cases hs) auto
  moreover have "is_digit (last ?s)" using md by (simp add: two_digits_def)
  ultimately have tr: "trim ?s = ?s"
    using digit_not_space by (intro trim_id) auto
  have lo: "toLowerCase ?s = ?s"
    using hd(3) md by (simp add: toLowerCase_append toLowerCase_digits toLowerCase_colon)
  have "shape24 (toLowerCase (trim ?s)) hs (two_digits m)"
    unfolding tr lo shape24_def using hd md by simp
  from normalizeTime_h24 [OF this] show ?thesis
    using assms hd(4) parseInt_two_digits [OF m100] format_hhmm_canonical [of h m] by simp
qed

lemma normalizeTime_12_input:
  assumes "1 \<le> h" "h \<le> 12" "hour_digits h hs" "list_all is_space sp"
    and mer: "toLowerCase mer = ''am'' \<or> toLowerCase mer = ''pm''"
    and mo: "mo = None \<and> m = 0 \<or> mo = Some (two_digits m) \<and> m < 60"
  shows "normalizeTime (hs @ minute_part mo @ sp @ mer) = Inr (hhmm (to24 h (toLowerCase mer)) m)"
proof -
  let ?s = "hs @ minute_part mo @ sp @ mer"
  have h100: "h < 100" and m100: "m < 100" using assms by auto
  note hd = hour_digits_props [OF assms(3) h100]
  note md = two_digits_props [OF m100]
  note ml = meridiem_last [OF mer]
  have "is_digit (hd ?s)" using hd(1,3) by (cases hs) auto
  moreover have "last ?s = last mer" using ml(1) by simp
  ultimately have tr: "trim ?s = ?s"
    using digit_not_space ml by (intro trim_id) auto
  have "toLowerCase (minute_part mo) = minute_part mo"
    using mo md by (auto simp: minute_part_def toLowerCase_append toLowerCase_digits toLowerCase_colon)
  then have lo: "toLowerCase ?s = hs @ minute_part mo @ sp @ toLowerCase mer"
    using hd(3) assms(4) by (simp add: toLowerCase_append toLowerCase_digits toLowerCase_spaces)
  have "shape12 (toLowerCase (trim ?s)) hs mo sp (toLowerCase mer)"
    unfolding tr lo shape12_def using hd md mo mer assms(4) by auto
  from normalizeTime_h12 [OF this] show ?thesis
    using assms(1,2) mo hd(4) parseInt_two_digits [OF m100]
      format_hhmm_canonical [of "to24 h (toLowerCase mer)" m]
    by (auto simp: Let_def to24_def)
qed

lemma normalizeTime_invalid_iff:
  "normalizeTime s = Inl InvalidTime \<longleftrightarrow>
     (\<exists>ds ms. shape24 (toLowerCase (trim s)) ds ms \<and> (23 < parseInt ds \<or> 59 < parseInt ms)) \<or>
     (\<exists>ds mo sp period. shape12 (toLowerCase (trim s)) ds mo sp period \<and>
        (parseInt ds < 1 \<or> 12 < parseInt ds \<or> 59 < minute_value mo))"
  (is "?L \<longleftrightarrow> ?A \<or> ?B")
proof
  assume L: ?L
  show "?A \<or> ?B"
  proof (cases "match_h24 (toLowerCase (trim s))")
    case (Some p)
    then have sh: "shape24 (toLowerCase (trim s)) (fst p) (snd p)"
      using match_h24_sound [of _ "fst p" "snd p"] by simp
    from L normalizeTime_h24 [OF sh] have "23 < parseInt (fst p) \<or> 59 < parseInt (snd p)"
      by (auto split: if_splits)
    with sh have ?A by blast
    then show ?thesis ..
  next
    case None
    with L obtain ds mo period where "match_h12 (toLowerCase (trim s)) = Some (ds, mo, period)"
      by (cases "match_h12 (toLowerCase (trim s))") (auto simp: normalizeTime_def Let_def)
    then obtain sp where sh: "shape12 (toLowerCase (trim s)) ds mo sp period"
      using match_h12_sound by blast
    from L normalizeTime_h12 [OF sh]
    have "parseInt ds < 1 \<or> 12 < parseInt ds \<or> 59 < minute_value mo"
      by (auto simp: Let_def minute_value_def split: if_splits option.splits)
    with sh have ?B by blast
    then show ?thesis ..
  qed
next
  assume "?A \<or> ?B"
  then show ?L
  proof
    assume ?A
    then obtain ds ms where "shape24 (toLowerCase (trim s)) ds ms" "23 < parseInt ds \<or> 59 < parseInt ms"
      by blast
    then show ?L using normalizeTime_h24 by auto
  next
    assume ?B
    then obtain ds mo sp period where "shape12 (toLowerCase (trim s)) ds mo sp period"
      "parseInt ds < 1 \<or> 12 < parseInt ds \<or> 59 < minute_value mo"
      by blast
    then show ?L
      using normalizeTime_h12 [of s ds mo sp period]
      by (auto simp: Let_def minute_value_def split: option.splits)
  qed
qed

lemma normalizeTime_unrecognized_iff:
  "normalizeTime s = Inl UnrecognizedFormat \<longleftrightarrow>
     \<not> (\<exists>ds ms. shape24 (toLowerCase (trim s)) ds ms) \<and>
     \<not> (\<exists>ds mo sp period. shape12 (toLowerCase (trim s)) ds mo sp period)"
proof -
  let ?t = "toLowerCase (trim s)"
  have a: "match_h24 ?t = None \<longleftrightarrow> \<not> (\<exists>ds ms. shape24 ?t ds ms)"
    using match_h24_iff [of ?t] by (cases "match_h24 ?t") auto
  have b: "match_h12 ?t = None \<longleftrightarrow> \<not> (\<exists>ds mo sp period. shape12 ?t ds mo sp period)"
  proof (cases "match_h12 ?t")
    case None
    then show ?thesis using match_h12_complete [of ?t] by auto
  next
    case (Some q)
    then obtain ds mo period where "match_h12 ?t = Some (ds, mo, period)"
      by (cases q) auto
    then show ?thesis using match_h12_sound by fastforce
  qed
  show ?thesis
    unfolding normalizeTime_unrecognized a b ..
qed

lemma normalizeTime_accepts_iff:
  "(\<exists>r. normalizeTime s = Inr r) \<longleftrightarrow>
     (\<exists>ds ms. shape24 (toLowerCase (trim s)) ds ms \<and> parseInt ds \<le> 23 \<and> parseInt ms \<le> 59) \<or>
     (\<exists>ds mo sp period. shape12 (toLowerCase (trim s)) ds mo sp period \<and>
        1 \<le> parseInt ds \<and> parseInt ds \<le> 12 \<and> minute_value mo \<le> 59)"
  (is "?L \<longleftrightarrow> ?A \<or> ?B")
proof
  assume ?L
  then obtain r where r: "normalizeTime s = Inr r" ..
  then have ni: "normalizeTime s \<noteq> Inl InvalidTime" and nu: "normalizeTime s \<noteq> Inl UnrecognizedFormat"
    by simp_all
  from nu normalizeTime_unrecognized_iff [of s]
  consider ds ms where "shape24 (toLowerCase (trim s)) ds ms"
    | ds mo sp period where "shape12 (toLowerCase (trim s)) ds mo sp period"
    by blast
  then show "?A \<or> ?B"
  proof cases
    case 1
    with ni normalizeTime_invalid_iff [of s] have "\<not> (23 < parseInt ds \<or> 59 < parseInt ms)" by blast
    with 1 have ?A by (intro exI [of _ ds] exI [of _ ms]) simp
    then show ?thesis ..
  next
    case 2
    with ni normalizeTime_invalid_iff [of s]
    have "\<not> (parseInt ds < 1 \<or> 12 < parseInt ds \<or> 59 < minute_value mo)" by blast
    with 2 have ?B
      by (intro exI [of _ ds] exI [of _ mo] exI [of _ sp] exI [of _ period]) simp
    then show ?thesis ..
  qed
next
  assume "?A \<or> ?B"
  then show ?L
  proof
    assume ?A
    then obtain ds ms where "shape24 (toLowerCase (trim s)) ds ms" "parseInt ds \<le> 23" "parseInt ms \<le> 59"
      by blast
    then show ?L using normalizeTime_h24 [of s ds ms] by simp
  next
    assume ?B
    then obtain ds mo sp period where "shape12 (toLowerCase (trim s)) ds mo sp period"
      "1 \<le> parseInt ds" "parseInt ds \<le> 12" "minute_value mo \<le> 59"
      by blast
    then show ?L
      using normalizeTime_h12 [of s ds mo sp period]
      by (auto simp: Let_def minute_value_def split: option.splits)
  qed
qed

lemma time_examples:
  "normalizeTime ''2:30 pm'' = Inr ''14:30''"
  "normalizeTime ''12am'' = Inr ''00:00''"
  "normalizeTime ''12pm'' = Inr ''12:00''"
  "normalizeTime ''25:00'' = Inl InvalidTime"
  "normalizeTime ''13:00 pm'' = Inl InvalidTime"
  "normalizeTime ''24:00'' = Inl InvalidTime"
  "normalizeTime ''12:30:45'' = Inl UnrecognizedFormat"
  "normalizeTime ''12:30.5'' = Inl UnrecognizedFormat"
  by code_simp+

section \<open>Lemmas on the Event and Booking models\<close>

lemma refresh_slug_frame:
  "refresh_slug tm d =
     d\<lparr>slug := (if tm \<or> slug_unset (slug d) then Some (slugify (title d)) else slug d)\<rparr>"
  by (simp add: refresh_slug_def)

lemma event_pre_save_slug_lemma:
  assumes "event_pre_save f tm d = (d', res)"
  shows "slug d' = (if tm \<or> slug_unset (slug d) then Some (slugify (title d)) else slug d)"
    and "d' = d\<lparr>slug := slug d', date := date d', time := time d'\<rparr>"
  using assms
  by (auto simp: event_pre_save_def refresh_slug_def Let_def split: option.splits sum.splits if_splits)

lemma email_char_at: "\<not> email_char CHR ''@''"
  by (simp add: email_char_def)

lemma email_char_dot: "email_char CHR ''.''"
  by (simp add: email_char_def is_space_def)

lemma EMAIL_RE_complete:
  assumes "email_shape v"
  shows "EMAIL_RE_test v"
proof -
  from assms obtain l d t where v: "v = l @ CHR ''@'' # d @ CHR ''.'' # t"
    and ne: "l \<noteq> []" "d \<noteq> []" "t \<noteq> []"
    and ok: "\<forall>c \<in> set (l @ d @ t). email_char c"
    by (auto simp: email_shape_def email_char_def)
  have l: "\<forall>c \<in> set l. email_char c" using ok by simp
  have tw: "takeWhile email_char v = l"
    unfolding v using l email_char_at by (simp add: takeWhile_append2 takeWhile_tail)
  have dw: "dropWhile email_char v = CHR ''@'' # d @ CHR ''.'' # t"
    unfolding v using l email_char_at by (simp add: dropWhile_append2 dropWhile_append3)
  have host: "list_all email_char (d @ CHR ''.'' # t)"
    using ok email_char_dot by (simp add: list_all_iff)
  obtain x d' where d: "d = x # d'" using ne(2) by (cases d) auto
  have "butlast (tl (d @ CHR ''.'' # t)) = d' @ CHR ''.'' # butlast t"
    using ne(3) d by (simp add: butlast_append)
  then have "CHR ''.'' \<in> set (butlast (tl (d @ CHR ''.'' # t)))" by simp
  then show ?thesis
    unfolding EMAIL_RE_test_def tw dw Let_def using ne(1) host by simp
qed

lemma EMAIL_RE_sound:
  assumes "EMAIL_RE_test v"
  shows "email_shape v"
proof -
  let ?l = "takeWhile email_char v"
  from assms obtain host where l: "?l \<noteq> []" and r: "dropWhile email_char v = CHR ''@'' # host"
    and host: "list_all email_char host" and dot: "CHR ''.'' \<in> set (butlast (tl host))"
    by (auto simp: EMAIL_RE_test_def Let_def split: list.splits)
  have v: "v = ?l @ CHR ''@'' # host"
    using r takeWhile_dropWhile_id [of email_char v] by simp
  from dot obtain a b where ab: "butlast (tl host) = a @ CHR ''.'' # b"
    by (auto dest: split_list)
  then have tn: "tl host \<noteq> []" by auto
  then have hn: "host \<noteq> []" by auto
  have "tl host = butlast (tl host) @ [last (tl host)]"
    using tn by simp
  then have "tl host = a @ CHR ''.'' # b @ [last (tl host)]"
    using ab by simp
  then have h: "host = (hd host # a) @ ''.'' @ (b @ [last (tl host)])"
    using hn by (metis append_Cons append_Nil list.collapse)
  have "\<forall>c \<in> set ?l. email_char c"
    by (auto dest: set_takeWhileD)
  moreover have "\<forall>c \<in> set host. email_char c"
    using host by (simp add: list_all_iff)
  then have "\<forall>c \<in> set ((hd host # a) @ (b @ [last (tl host)])). email_char c"
    by (subst (asm) h) auto
  ultimately have "\<forall>c \<in> set (?l @ (hd host # a) @ (b @ [last (tl host)])). \<not> is_space c \<and> c \<noteq> CHR ''@''"
    by (auto simp: email_char_def)
  moreover have "v = ?l @ ''@'' @ (hd host # a) @ ''.'' @ (b @ [last (tl host)])"
    using v h by simp
  ultimately show ?thesis
    unfolding email_shape_def using l by blast
qed

lemma EMAIL_RE_iff: "EMAIL_RE_test v \<longleftrightarrow> email_shape v"
  using EMAIL_RE_sound EMAIL_RE_complete by blast

lemma is_space_lower: "is_space (lower_char c) = is_space c"
proof -
  have "(of_char c :: nat) < 256" by simp
  then show ?thesis
    by (auto simp: is_space_def lower_char_def Let_def)
qed

lemma trim_toLowerCase: "trim (toLowerCase s) = toLowerCase (trim s)"
proof -
  have c: "is_space \<circ> lower_char = is_space"
    by (rule ext) (simp add: is_space_lower)
  have a: "\<And>u. dropWhile is_space (map lower_char u) = map lower_char (dropWhile is_space u)"
    by (simp add: dropWhile_map c)
  show ?thesis
    by (simp add: trim_def trimStart_def trimEnd_def toLowerCase_def a rev_map)
qed

lemma validate_email_iff: "validate_email (Some v) = [] \<longleftrightarrow> email_shape v"
proof -
  have "email_shape [] = False" by (simp add: email_shape_def)
  then show ?thesis
    by (auto simp: validate_email_def EMAIL_RE_iff)
qed

lemma save_booking_stored:
  assumes "save_booking db b = (db', Inr doc)"
  shows "in_eventId b = Some (eventId doc)"
    and "\<exists>e. in_email b = Some e \<and> email doc = toLowerCase (trim e) \<and> email_shape (email doc)"
    and "\<exists>ids. event_collection db = Inr ids \<and> eventId doc \<in> set ids"
    and "db' = db\<lparr>bookings := bookings db @ [doc]\<rparr>"
proof -
  from assms have v: "validate_booking (cast_booking b) = Inr doc"
    and h: "booking_pre_save db doc = Inr ()"
    and d: "db' = db\<lparr>bookings := bookings db @ [doc]\<rparr>"
    by (auto simp: save_booking_def split: sum.splits)
  show "db' = db\<lparr>bookings := bookings db @ [doc]\<rparr>" by (rule d)
  from v show "in_eventId b = Some (eventId doc)"
    by (auto simp: validate_booking_def cast_booking_def Let_def split: option.splits if_splits)
  from v obtain e where e: "in_email b = Some e" "email doc = email_setters e"
    "validate_email (Some (email_setters e)) = []"
    by (auto simp: validate_booking_def cast_booking_def Let_def split: option.splits if_splits)
  then show "\<exists>e. in_email b = Some e \<and> email doc = toLowerCase (trim e) \<and> email_shape (email doc)"
    using validate_email_iff [of "email_setters e"] by (simp add: email_setters_def)
  from h show "\<exists>ids. event_collection db = Inr ids \<and> eventId doc \<in> set ids"
    by (auto simp: booking_pre_save_def split: sum.splits if_splits)
qed

lemma save_booking_rejected: "save_booking db b = (db', Inl err) \<Longrightarrow> db' = db"
  by (auto simp: save_booking_def split: sum.splits)

lemma save_booking_bad_email:
  assumes "in_email b = Some e" "\<not> email_shape (toLowerCase (trim e))"
  shows "\<exists>errs. save_booking db b = (db, Inl (ValidationError errs))"
proof -
  have "validate_email (Some (email_setters e)) \<noteq> []"
    using assms(2) validate_email_iff [of "email_setters e"] by (simp add: email_setters_def)
  then have "\<exists>errs. validate_booking (cast_booking b) = Inl (ValidationError errs)"
    using assms(1)
    by (auto simp: validate_booking_def cast_booking_def Let_def split: option.splits)
  then show ?thesis
    by (auto simp: save_booking_def)
qed

lemma booking_pre_save_iff:
  "booking_pre_save db doc = Inr () \<longleftrightarrow>
     (\<exists>ids. event_collection db = Inr ids \<and> eventId doc \<in> set ids)"
  by (auto simp: booking_pre_save_def split: sum.splits)

lemma booking_pre_save_missing:
  "event_collection db = Inr ids \<Longrightarrow> eventId doc \<notin> set ids \<Longrightarrow>
   booking_pre_save db doc = Inl ReferencedEventMissing"
  by (simp add: booking_pre_save_def)

lemma save_booking_missing:
  assumes "event_collection db = Inr ids" "in_eventId b = Some i" "i \<notin> set ids"
  shows "\<exists>err. save_booking db b = (db, Inl err)"
    and "\<forall>doc. validate_booking (cast_booking b) = Inr doc \<longrightarrow>
           save_booking db b = (db, Inl ReferencedEventMissing)"
proof -
  have doc: "\<And>doc. validate_booking (cast_booking b) = Inr doc \<Longrightarrow> eventId doc = i"
    using assms(2)
    by (auto simp: validate_booking_def cast_booking_def Let_def split: option.splits if_splits)
  show "\<forall>doc. validate_booking (cast_booking b) = Inr doc \<longrightarrow>
           save_booking db b = (db, Inl ReferencedEventMissing)"
    using doc booking_pre_save_missing [OF assms(1)] assms(3)
    by (auto simp: save_booking_def)
  then show "\<exists>err. save_booking db b = (db, Inl err)"
    by (cases "validate_booking (cast_booking b)") (auto simp: save_booking_def)
qed

lemma booking_example:
  "save_booking \<lparr>event_collection = Inr [7], bookings = []\<rparr>
     \<lparr>in_eventId = Some 7, in_email = Some ''User@Example.COM''\<rparr> =
   (\<lparr>event_collection = Inr [7], bookings = [\<lparr>eventId = 7, email = ''user@example.com''\<rparr>]\<rparr>,
    Inr \<lparr>eventId = 7, email = ''user@example.com''\<rparr>)"
  by code_simp

lemma booking_example_missing:
  "save_booking \<lparr>event_collection = Inr [7], bookings = []\<rparr>
     \<lparr>in_eventId = Some 8, in_email = Some ''User@Example.COM''\<rparr> =
   (\<lparr>event_collection = Inr [7], bookings = []\<rparr>, Inl ReferencedEventMissing)"
  by code_simp

lemma slugify_trim: "slugify (trim t) = slugify t"
  by (simp add: slugify_words trim_toLowerCase [symmetric] words_of_trim)

lemma cast_event_slug: "slug (cast_event d) = slug d"
  by (simp add: cast_event_def)

lemma failed_paths_slug:
  "''slug'' \<in> set (failed_paths d) \<longleftrightarrow> slug d = None \<or> slug d = Some []"
  by (auto simp: failed_paths_def split: option.splits)

lemma save_event_unset_slug:
  assumes "slug d = None \<or> slug d = Some []"
  shows "save_event f tm d = (cast_event d, Inl (EventValidationError (set (failed_paths (cast_event d)))))"
    and "''slug'' \<in> set (failed_paths (cast_event d))"
proof -
  show m: "''slug'' \<in> set (failed_paths (cast_event d))"
    using assms by (simp add: failed_paths_slug cast_event_slug)
  then have "failed_paths (cast_event d) \<noteq> []" by auto
  then show "save_event f tm d =
      (cast_event d, Inl (EventValidationError (set (failed_paths (cast_event d)))))"
    by (simp add: save_event_def Let_def)
qed

lemma save_event_success:
  assumes "save_event f tm d = (d', Inr ())"
  shows "\<exists>v. slug d = Some v \<and> v \<noteq> []"
    and "slug d' = (if tm then Some (slugify (title d)) else slug d)"
proof -
  from assms have np: "failed_paths (cast_event d) = []"
    by (auto simp: save_event_def Let_def split: if_splits)
  then have "''slug'' \<notin> set (failed_paths (cast_event d))" by simp
  then have s: "slug d \<noteq> None" "slug d \<noteq> Some []"
    by (simp_all add: failed_paths_slug cast_event_slug)
  then show "\<exists>v. slug d = Some v \<and> v \<noteq> []" by (cases "slug d") auto
  from assms np obtain res where h: "event_pre_save f tm (cast_event d) = (d', res)"
    by (auto simp: save_event_def Let_def split: prod.splits option.splits)
  have u: "\<not> slug_unset (slug d)"
    using s by (auto simp: slug_unset_def split: option.splits)
  have "title (cast_event d) = trim (title d)" by (simp add: cast_event_def)
  then show "slug d' = (if tm then Some (slugify (title d)) else slug d)"
    using event_pre_save_slug_lemma(1) [OF h] u by (simp add: cast_event_slug slugify_trim)
qed

lemma slug_unset_iff: "slug_unset x \<longleftrightarrow> x = None \<or> x = Some []"
  by (auto simp: slug_unset_def split: option.splits)

lemma trim_sandwich:
  assumes pre: "list_all is_space pre" and post: "list_all is_space post"
    and core: "core = [] \<or> \<not> is_space (hd core) \<and> \<not> is_space (last core)"
  shows "trim (pre @ core @ post) = core"
proof (cases "core = []")
  case True
  have "\<forall>x \<in> set (pre @ post). is_space x"
    using pre post by (auto simp: list_all_iff)
  then have d: "dropWhile is_space (pre @ post) = []"
    by (simp only: dropWhile_eq_Nil_conv)
  have "trimStart (pre @ core @ post) = []"
    by (simp only: True append_Nil trimStart_def d)
  then show ?thesis
    using True by (simp add: trim_def trimEnd_def)
next
  case False
  with core have h: "\<not> is_space (hd core)" and l: "\<not> is_space (last core)" by simp_all
  have "dropWhile is_space (pre @ core @ post) = dropWhile is_space (core @ post)"
    using pre by (intro dropWhile_append2) (simp add: list_all_iff)
  also have "\<dots> = core @ post"
    using False h by (cases core) auto
  finally have a: "trimStart (pre @ core @ post) = core @ post"
    by (simp add: trimStart_def)
  have "dropWhile is_space (rev post @ rev core) = dropWhile is_space (rev core)"
    using post by (intro dropWhile_append2) (simp add: list_all_iff)
  also have "\<dots> = rev core"
    using False l by (cases core rule: rev_cases) auto
  finally have "trimEnd (core @ post) = core"
    by (simp add: trimEnd_def)
  with a show ?thesis by (simp add: trim_def)
qed

lemma trimEnd_split:
  "\<exists>c p. b = c @ p \<and> list_all is_space p \<and> (c = [] \<or> \<not> is_space (last c))"
proof (induction b rule: rev_induct)
  case Nil
  then show ?case by simp
next
  case (snoc x xs)
  show ?case
  proof (cases "is_space x")
    case False
    have "xs @ [x] = (xs @ [x]) @ [] \<and> list_all is_space [] \<and>
          (xs @ [x] = [] \<or> \<not> is_space (last (xs @ [x])))"
      using False by simp
    then show ?thesis by blast
  next
    case True
    from snoc obtain c p where cp: "xs = c @ p" "list_all is_space p" "c = [] \<or> \<not> is_space (last c)"
      by blast
    have "xs @ [x] = c @ (p @ [x]) \<and> list_all is_space (p @ [x]) \<and> (c = [] \<or> \<not> is_space (last c))"
      using cp True by simp
    then show ?thesis by blast
  qed
qed

lemma trim_decomp:
  "\<exists>pre core post. e = pre @ core @ post \<and> list_all is_space pre \<and> list_all is_space post \<and>
     (core = [] \<or> \<not> is_space (hd core) \<and> \<not> is_space (last core))"
proof -
  define a where "a = takeWhile is_space e"
  define b where "b = dropWhile is_space e"
  have e: "e = a @ b" by (simp add: a_def b_def)
  have a: "list_all is_space a"
    by (auto simp: a_def list_all_iff dest: set_takeWhileD)
  have b: "b = [] \<or> \<not> is_space (hd b)"
    unfolding b_def by (metis hd_dropWhile)
  obtain c p where cp: "b = c @ p" "list_all is_space p" "c = [] \<or> \<not> is_space (last c)"
    using trimEnd_split by blast
  have "c = [] \<or> \<not> is_space (hd c)"
  proof (cases "c = []")
    case True
    then show ?thesis ..
  next
    case False
    with cp(1) have "hd b = hd c" "b \<noteq> []" by simp_all
    with b show ?thesis by simp
  qed
  with cp(3) have "c = [] \<or> \<not> is_space (hd c) \<and> \<not> is_space (last c)" by blast
  moreover have "e = a @ c @ p" using e cp(1) by simp
  ultimately show ?thesis using a cp(2) by blast
qed

lemma booking_example_padded:
  "save_booking \<lparr>event_collection = Inr [7], bookings = []\<rparr>
     \<lparr>in_eventId = Some 7, in_email = Some ''  User@Example.COM  ''\<rparr> =
   (\<lparr>event_collection = Inr [7], bookings = [\<lparr>eventId = 7, email = ''user@example.com''\<rparr>]\<rparr>,
    Inr \<lparr>eventId = 7, email = ''user@example.com''\<rparr>)"
  by code_simp

section \<open>Lemmas on the connection cache\<close>






lemma failed_connectToDatabase:
  "failed_cache c e \<Longrightarrow>
   connectToDatabase uri c = ((if uri_missing uri then Throw MissingUri else Await 0), c)"
  by (simp add: failed_cache_def connectToDatabase_def)

lemma failed_connectToDatabase_resume: "failed_cache c e \<Longrightarrow> connectToDatabase_resume 0 c = Some (Throw e, c)"
  by (simp add: failed_cache_def connectToDatabase_resume_def)


lemma connectToDatabase_resume_keeps:
  "connectToDatabase_resume p c = Some (out, c') \<Longrightarrow> promises c' = promises c \<and> promise c' = promise c"
  by (auto simp: connectToDatabase_resume_def split: if_splits promise_state.splits)







lemma reload_examples:
  "establishments (run initial [Call 0 (Some ''mongodb://db''), Reload, Call 1 (Some ''mongodb://db'')]) = 2"
  "establishments (run initial [Call 0 (Some ''mongodb://db''),
      Settle 0 0 (Rejected (ConnectFailed ''refused'')), Resume 0, Reload,
      Call 1 (Some ''mongodb://db'')]) = 2"
  by (simp_all add: run_def step_def initial_def initial_cache_def connectToDatabase_def
        connectToDatabase_resume_def establishments_def publish_def published_def uri_missing_def)

lemma sum_promises_update:
  assumes "k < length cs" "length (promises c) = length (promises (cs ! k))"
  shows "sum_list (map (\<lambda>x. length (promises x)) (cs[k := c])) =
         sum_list (map (\<lambda>x. length (promises x)) cs)"
proof -
  have "map (\<lambda>x. length (promises x)) (cs[k := c]) =
        (map (\<lambda>x. length (promises x)) cs)[k := length (promises (cs ! k))]"
    using assms by (simp add: map_update)
  also have "\<dots> = map (\<lambda>x. length (promises x)) cs"
    using assms(1) by (simp add: list_update_same_conv)
  finally show ?thesis by simp
qed

lemma sum_promises_publish:
  assumes "k < length cs" "length (promises c) = length (promises (cs ! k))"
  shows "sum_list (map (\<lambda>x. length (promises x)) (publish k c cs)) =
         sum_list (map (\<lambda>x. length (promises x)) cs)"
proof -
  let ?cs = "map (\<lambda>x. x\<lparr>global_cache := False\<rparr>) cs"
  have a: "map (\<lambda>x. length (promises x)) ?cs = map (\<lambda>x. length (promises x)) cs"
    by (simp add: comp_def)
  have "sum_list (map (\<lambda>x. length (promises x)) (?cs[k := c])) =
        sum_list (map (\<lambda>x. length (promises x)) ?cs)"
    using assms by (intro sum_promises_update) simp_all
  also have "\<dots> = sum_list (map (\<lambda>x. length (promises x)) cs)"
    by (simp only: a)
  finally show ?thesis by (simp only: publish_def)
qed

lemma failed_object_step:
  assumes k: "k < length (caches s)" and f: "failed_cache (caches s ! k) e"
  shows "caches (step s a) ! k = caches s ! k \<and> k < length (caches (step s a))"
proof (cases a)
  case Reload
  then show ?thesis
    using k by (auto simp: step_def nth_append split: option.splits)
next
  case (Call i uri)
  show ?thesis
  proof (cases "current s = k")
    case True
    then show ?thesis
      using Call k failed_connectToDatabase [OF f, of uri] by (auto simp: step_def Let_def)
  next
    case False
    then show ?thesis
      using Call k by (auto simp: step_def Let_def split: prod.splits)
  qed
next
  case (Settle j p r)
  show ?thesis
  proof (cases "j = k")
    case True
    have "\<not> (p < length (promises (caches s ! k)) \<and> promises (caches s ! k) ! p = Pending)"
      using f by (auto simp: failed_cache_def)
    with True Settle k show ?thesis by (auto simp: step_def)
  next
    case False
    with Settle k show ?thesis by (auto simp: step_def)
  qed
next
  case (Resume i)
  show ?thesis
  proof (cases "callers s i")
    case Idle
    with Resume k show ?thesis by (simp add: step_def)
  next
    case (Done out)
    with Resume k show ?thesis by (simp add: step_def)
  next
    case (Waiting j p)
    show ?thesis
    proof (cases "j = k")
      case True
      have r: "connectToDatabase_resume p (caches s ! k) =
               (if p = 0 then Some (Throw e, caches s ! k) else None)"
        using f by (auto simp: failed_cache_def connectToDatabase_resume_def)
      show ?thesis
        using Resume Waiting True k r by (auto simp: step_def)
    next
      case False
      have cl: "(caches s ! k)\<lparr>global_cache := False\<rparr> = caches s ! k"
        using f by (simp add: failed_cache_def)
      show ?thesis
        using Resume Waiting False k cl
        by (auto simp: step_def publish_def split: option.splits outcome.splits)
    qed
  qed
qed

lemma failed_object_run:
  assumes "k < length (caches s)" "failed_cache (caches s ! k) e"
  shows "caches (run s as) ! k = caches s ! k \<and> k < length (caches (run s as))"
  using assms
proof (induction as arbitrary: s)
  case Nil
  then show ?case by (simp add: run_def)
next
  case (Cons a as)
  note st = failed_object_step [OF Cons.prems, of a]
  from st Cons.prems(2) have "failed_cache (caches (step s a) ! k) e" by simp
  from Cons.IH [OF _ this] st show ?case by (simp add: run_def)
qed

lemma failed_current_step:
  assumes nr: "a \<noteq> Reload" and cur: "current s = k" and k: "k < length (caches s)"
    and f: "failed_cache (caches s ! k) e"
  shows "establishments (step s a) = establishments s"
    and "current (step s a) = k"
    and "callers s i \<in> failed_outcomes k e \<Longrightarrow> callers (step s a) i \<in> failed_outcomes k e"
proof -
  have r: "\<And>p. connectToDatabase_resume p (caches s ! k) =
               (if p = 0 then Some (Throw e, caches s ! k) else None)"
    using f by (auto simp: failed_cache_def connectToDatabase_resume_def)
  note cs = failed_connectToDatabase [OF f]
  show "current (step s a) = k"
    using nr cur
    by (cases a) (auto simp: step_def Let_def split: prod.splits caller.splits option.splits)
  show "establishments (step s a) = establishments s"
  proof (cases a)
    case Reload
    with nr show ?thesis by simp
  next
    case (Call j uri)
    then show ?thesis
      using cur k cs [of uri] by (auto simp: step_def Let_def establishments_def)
  next
    case (Settle j p x)
    then show ?thesis
      by (auto simp: step_def establishments_def intro!: sum_promises_update)
  next
    case (Resume j)
    show ?thesis
    proof (cases "callers s j")
      case Idle
      with Resume show ?thesis by (simp add: step_def)
    next
      case (Done out)
      with Resume show ?thesis by (simp add: step_def)
    next
      case (Waiting m p)
      show ?thesis
      proof (cases "m < length (caches s)")
        case False
        with Resume Waiting show ?thesis by (simp add: step_def)
      next
        case True
        show ?thesis
        proof (cases "connectToDatabase_resume p (caches s ! m)")
          case None
          with Resume Waiting True show ?thesis by (simp add: step_def)
        next
          case (Some oc)
          obtain out c' where oc: "oc = (out, c')" by (cases oc) auto
          have len: "length (promises c') = length (promises (caches s ! m))"
            using connectToDatabase_resume_keeps [OF Some [unfolded oc]] by simp
          have "sum_list (map (\<lambda>x. length (promises x))
                  (case out of Return _ \<Rightarrow> publish m c' (caches s) | _ \<Rightarrow> (caches s)[m := c'])) =
                sum_list (map (\<lambda>x. length (promises x)) (caches s))"
            using sum_promises_publish [OF True len] sum_promises_update [OF True len]
            by (cases out) simp_all
          then show ?thesis
            using Resume Waiting True Some oc by (simp add: step_def establishments_def)
        qed
      qed
    qed
  qed
  show "callers (step s a) i \<in> failed_outcomes k e" if "callers s i \<in> failed_outcomes k e"
  proof (cases a)
    case Reload
    with nr show ?thesis by simp
  next
    case (Call j uri)
    then show ?thesis
      using that cur k cs [of uri] by (auto simp: step_def Let_def failed_outcomes_def)
  next
    case (Settle j p x)
    then show ?thesis
      using that by (auto simp: step_def)
  next
    case (Resume j)
    show ?thesis
    proof (cases "j = i")
      case False
      with Resume that show ?thesis
        by (auto simp: step_def split: caller.splits option.splits)
    next
      case True
      from that consider "callers s i = Idle" | "callers s i = Waiting k 0"
        | "callers s i = Done (Throw e)" | "callers s i = Done (Throw MissingUri)"
        by (auto simp: failed_outcomes_def)
      then show ?thesis
      proof cases
        case 2
        then show ?thesis
          using Resume True k r by (simp add: step_def failed_outcomes_def)
      qed (use Resume True that in \<open>simp_all add: step_def\<close>)
    qed
  qed
qed

lemma failed_current_run:
  assumes "Reload \<notin> set as" "current s = k" "k < length (caches s)" "failed_cache (caches s ! k) e"
  shows "establishments (run s as) = establishments s \<and> current (run s as) = k \<and>
         (callers s i \<in> failed_outcomes k e \<longrightarrow> callers (run s as) i \<in> failed_outcomes k e)"
  using assms
proof (induction as arbitrary: s)
  case Nil
  then show ?case by (simp add: run_def)
next
  case (Cons a as)
  from Cons.prems(1) have nr: "a \<noteq> Reload" and nrs: "Reload \<notin> set as" by auto
  note st = failed_current_step [OF nr Cons.prems(2,3,4)]
  note ob = failed_object_step [OF Cons.prems(3,4), of a]
  from ob Cons.prems(4) have f': "failed_cache (caches (step s a) ! k) e" by simp
  from ob have k': "k < length (caches (step s a))" by simp
  from Cons.IH [OF nrs st(2) k' f'] st(1) st(3) [of i] show ?case
    by (simp add: run_def)
qed

section \<open>Verified properties\<close>

subsection \<open>Slug generation\<close>

text \<open>
  Claim C4. For every text \<open>v\<close>, \<open>slugify v\<close> is the lower-cased text with its maximal
  runs of characters of \<open>[a-z0-9]\<close> kept in order and every run of other characters
  between two of them replaced by one hyphen: it consists of characters of \<open>[a-z0-9]\<close>
  and hyphens only, neither starts nor ends with a hyphen, and never has two hyphens in a
  row. The function is total and has no error result; the empty text gives the empty
  slug, \<open>"Hello, World!  Foo"\<close> gives \<open>"hello-world-foo"\<close> and
  \<open>"  --Multi---Space--  "\<close> gives \<open>"multi-space"\<close>.
\<close>

theorem slugify_spec:
  "slugify v = join_hyphen (words_of (toLowerCase v)) \<and>
   (\<forall>c \<in> set (slugify v). is_slug_char c \<or> c = CHR ''-'') \<and>
   (slugify v \<noteq> [] \<longrightarrow> hd (slugify v) \<noteq> CHR ''-'' \<and> last (slugify v) \<noteq> CHR ''-'') \<and>
   (\<forall>a b. slugify v \<noteq> a @ ''--'' @ b) \<and>
   slugify '''' = '''' \<and>
   slugify ''Hello, World!  Foo'' = ''hello-world-foo'' \<and>
   slugify ''  --Multi---Space--  '' = ''multi-space''"
proof -
  let ?ws = "words_of (toLowerCase v)"
  have ws: "slug_words ?ws" by (rule slug_words_words_of)
  have nh: "\<not> is_slug_char CHR ''-''" by (simp add: is_slug_char_def)
  have 1: "slugify v = join_hyphen ?ws" by (rule slugify_words)
  have 2: "\<forall>c \<in> set (slugify v). is_slug_char c \<or> c = CHR ''-''"
    unfolding 1 using join_hyphen_alphabet [OF ws] by blast
  have 3: "slugify v \<noteq> [] \<longrightarrow> hd (slugify v) \<noteq> CHR ''-'' \<and> last (slugify v) \<noteq> CHR ''-''"
  proof
    assume "slugify v \<noteq> []"
    then have "?ws \<noteq> []" unfolding 1 by auto
    then have "is_slug_char (hd (join_hyphen ?ws))" "is_slug_char (last (join_hyphen ?ws))"
      using join_hyphen_head [OF ws] join_hyphen_last [OF ws] by blast+
    then show "hd (slugify v) \<noteq> CHR ''-'' \<and> last (slugify v) \<noteq> CHR ''-''"
      unfolding 1 using nh by auto
  qed
  have 4: "\<forall>a b. slugify v \<noteq> a @ ''--'' @ b"
    unfolding 1 using join_hyphen_no_double [OF ws] by blast
  show ?thesis
    using 1 2 3 4 slugify_examples by blast
qed

theorem slugify_spec_witness:
  "slugify ''My Talk'' = ''my-talk'' \<and>
   slugify ''My Talk'' = join_hyphen (words_of (toLowerCase ''My Talk'')) \<and>
   slugify ''My Talk'' \<noteq> [] \<and>
   hd (slugify ''My Talk'') \<noteq> CHR ''-'' \<and> last (slugify ''My Talk'') \<noteq> CHR ''-''"
proof -
  have e: "slugify ''My Talk'' = ''my-talk''" by code_simp
  then have n: "slugify ''My Talk'' \<noteq> []" by simp
  from slugify_spec [of "''My Talk''"] e n show ?thesis by blast
qed

text \<open>
  Claim C9. \<open>slugify\<close> is idempotent: a slug passed through the generator again comes
  back unchanged.
\<close>

theorem slugify_idempotent: "slugify (slugify v) = slugify v"
proof -
  let ?ws = "words_of (toLowerCase v)"
  have ws: "slug_words ?ws" by (rule slug_words_words_of)
  have "slugify (slugify v) = join_hyphen (words_of (toLowerCase (join_hyphen ?ws)))"
    by (simp only: slugify_words)
  also have "\<dots> = join_hyphen ?ws"
    by (simp only: toLowerCase_join [OF ws] words_of_join [OF ws])
  finally show ?thesis by (simp only: slugify_words)
qed

theorem slugify_idempotent_witness:
  "slugify ''  --Multi---Space--  '' = ''multi-space'' \<and> slugify ''multi-space'' = ''multi-space''"
proof -
  have e: "slugify ''  --Multi---Space--  '' = ''multi-space''" by code_simp
  from slugify_idempotent [of "''  --Multi---Space--  ''"] e show ?thesis by simp
qed

subsection \<open>Time normalisation\<close>

text \<open>
  Claim C2. Whatever \<open>normalizeTime\<close> accepts, its result is the canonical zero-padded
  text \<open>HH:MM\<close> of an hour below 24 and a minute below 60. An input \<open>H:MM\<close> or
  \<open>HH:MM\<close> with hour \<open>h\<close> in 0..23 and minute \<open>m\<close> in 0..59 gives the canonical text of
  \<open>h\<close> and \<open>m\<close>. An input of an hour \<open>h\<close> in 1..12, optionally a colon and a minute
  \<open>m\<close> in 0..59, any white space and a meridiem in either case gives the canonical text
  of the hour of the day and \<open>m\<close> (0 without a minute part), where 12 am is hour 0 and
  12 pm is hour 12; \<open>"2:30 pm"\<close> gives \<open>"14:30"\<close>.
\<close>

theorem normalizeTime_canonical:
  "(normalizeTime s = Inr r \<longrightarrow> (\<exists>h m. h < 24 \<and> m < 60 \<and> r = hhmm h m)) \<and>
   (h < 24 \<and> m < 60 \<and> hour_digits h hs \<longrightarrow>
      normalizeTime (hs @ '':'' @ two_digits m) = Inr (hhmm h m)) \<and>
   (1 \<le> k \<and> k \<le> 12 \<and> n < 60 \<and> hour_digits k ks \<and> list_all is_space sp \<and>
    (toLowerCase mer = ''am'' \<or> toLowerCase mer = ''pm'') \<longrightarrow>
      normalizeTime (ks @ '':'' @ two_digits n @ sp @ mer) = Inr (hhmm (to24 k (toLowerCase mer)) n) \<and>
      normalizeTime (ks @ sp @ mer) = Inr (hhmm (to24 k (toLowerCase mer)) 0)) \<and>
   to24 12 ''am'' = 0 \<and> to24 12 ''pm'' = 12 \<and>
   normalizeTime ''12am'' = Inr ''00:00'' \<and>
   normalizeTime ''12pm'' = Inr ''12:00'' \<and>
   normalizeTime ''2:30 pm'' = Inr ''14:30''"
proof -
  have 1: "normalizeTime s = Inr r \<longrightarrow> (\<exists>h m. h < 24 \<and> m < 60 \<and> r = hhmm h m)"
    using normalizeTime_result by blast
  have 2: "h < 24 \<and> m < 60 \<and> hour_digits h hs \<longrightarrow>
      normalizeTime (hs @ '':'' @ two_digits m) = Inr (hhmm h m)"
    using normalizeTime_24_input by blast
  have 3: "1 \<le> k \<and> k \<le> 12 \<and> n < 60 \<and> hour_digits k ks \<and> list_all is_space sp \<and>
    (toLowerCase mer = ''am'' \<or> toLowerCase mer = ''pm'') \<longrightarrow>
      normalizeTime (ks @ '':'' @ two_digits n @ sp @ mer) = Inr (hhmm (to24 k (toLowerCase mer)) n) \<and>
      normalizeTime (ks @ sp @ mer) = Inr (hhmm (to24 k (toLowerCase mer)) 0)"
  proof
    assume a: "1 \<le> k \<and> k \<le> 12 \<and> n < 60 \<and> hour_digits k ks \<and> list_all is_space sp \<and>
      (toLowerCase mer = ''am'' \<or> toLowerCase mer = ''pm'')"
    then have b: "1 \<le> k" "k \<le> 12" "hour_digits k ks" "list_all is_space sp"
      "toLowerCase mer = ''am'' \<or> toLowerCase mer = ''pm''" and n: "n < 60"
      by simp_all
    have "normalizeTime (ks @ minute_part (Some (two_digits n)) @ sp @ mer) =
          Inr (hhmm (to24 k (toLowerCase mer)) n)"
      by (rule normalizeTime_12_input [OF b]) (simp add: n)
    moreover have "normalizeTime (ks @ minute_part None @ sp @ mer) =
          Inr (hhmm (to24 k (toLowerCase mer)) 0)"
      by (rule normalizeTime_12_input [OF b]) simp
    ultimately show "normalizeTime (ks @ '':'' @ two_digits n @ sp @ mer) =
        Inr (hhmm (to24 k (toLowerCase mer)) n) \<and>
      normalizeTime (ks @ sp @ mer) = Inr (hhmm (to24 k (toLowerCase mer)) 0)"
      by (simp add: minute_part_def)
  qed
  have 4: "to24 12 ''am'' = 0 \<and> to24 12 ''pm'' = 12"
    by (simp add: to24_def)
  show ?thesis
    using 1 2 3 4 time_examples(1,2,3) by blast
qed

theorem normalizeTime_canonical_witness:
  "(7::nat) < 24 \<and> (5::nat) < 60 \<and> hour_digits 7 ''7'' \<and>
   normalizeTime ''7:05'' = Inr ''07:05'' \<and>
   (1::nat) \<le> 9 \<and> (9::nat) \<le> 12 \<and> (15::nat) < 60 \<and> hour_digits 9 ''09'' \<and>
   list_all is_space ''  '' \<and> toLowerCase ''Pm'' = ''pm'' \<and>
   normalizeTime ''09:15  Pm'' = Inr ''21:15'' \<and>
   normalizeTime ''09  Pm'' = Inr ''21:00'' \<and>
   (\<exists>h m. h < 24 \<and> m < 60 \<and> ''21:00'' = hhmm h m)"
proof -
  have a: "hour_digits 7 ''7''" "hour_digits 9 ''09''" "list_all is_space ''  ''"
    "toLowerCase ''Pm'' = ''pm''"
    by code_simp+
  have b: "two_digits 5 = ''05''" "two_digits 15 = ''15''" "hhmm 7 5 = ''07:05''"
    "hhmm (to24 9 ''pm'') 15 = ''21:15''" "hhmm (to24 9 ''pm'') 0 = ''21:00''"
    by code_simp+
  note t = normalizeTime_canonical [of "''09  Pm''" "''21:00''" 7 5 "''7''" 9 15 "''09''" "''  ''" "''Pm''"]
  from t a b show ?thesis by simp
qed

text \<open>
  Claim C3. \<open>normalizeTime\<close> fails with the invalid-time error exactly when the trimmed,
  lower-cased input has the shape of one of the two grammars and its hour or minute is
  out of the range of that grammar; it fails with the unrecognized-format error exactly
  when the input has neither shape; and it accepts exactly the inputs of one of the two
  shapes whose hour and minute are in range. So \<open>"25:00"\<close>, \<open>"13:00 pm"\<close> and
  \<open>"24:00"\<close> are invalid times, and a time with seconds or a fractional minute is not
  recognized.
\<close>

theorem normalizeTime_failures:
  "(normalizeTime s = Inl InvalidTime \<longleftrightarrow>
     (\<exists>ds ms. shape24 (toLowerCase (trim s)) ds ms \<and> (23 < parseInt ds \<or> 59 < parseInt ms)) \<or>
     (\<exists>ds mo sp period. shape12 (toLowerCase (trim s)) ds mo sp period \<and>
        (parseInt ds < 1 \<or> 12 < parseInt ds \<or> 59 < minute_value mo))) \<and>
   (normalizeTime s = Inl UnrecognizedFormat \<longleftrightarrow>
     \<not> (\<exists>ds ms. shape24 (toLowerCase (trim s)) ds ms) \<and>
     \<not> (\<exists>ds mo sp period. shape12 (toLowerCase (trim s)) ds mo sp period)) \<and>
   ((\<exists>r. normalizeTime s = Inr r) \<longleftrightarrow>
     (\<exists>ds ms. shape24 (toLowerCase (trim s)) ds ms \<and> parseInt ds \<le> 23 \<and> parseInt ms \<le> 59) \<or>
     (\<exists>ds mo sp period. shape12 (toLowerCase (trim s)) ds mo sp period \<and>
        1 \<le> parseInt ds \<and> parseInt ds \<le> 12 \<and> minute_value mo \<le> 59)) \<and>
   normalizeTime ''25:00'' = Inl InvalidTime \<and>
   normalizeTime ''13:00 pm'' = Inl InvalidTime \<and>
   normalizeTime ''24:00'' = Inl InvalidTime \<and>
   normalizeTime ''12:30:45'' = Inl UnrecognizedFormat \<and>
   normalizeTime ''12:30.5'' = Inl UnrecognizedFormat"
  using normalizeTime_invalid_iff [of s] normalizeTime_unrecognized_iff [of s]
    normalizeTime_accepts_iff [of s] time_examples(4-8)
  by blast

theorem normalizeTime_failures_witness:
  "normalizeTime ''25:00'' = Inl InvalidTime \<and>
   ((\<exists>ds ms. shape24 (toLowerCase (trim ''25:00'')) ds ms \<and> (23 < parseInt ds \<or> 59 < parseInt ms)) \<or>
    (\<exists>ds mo sp period. shape12 (toLowerCase (trim ''25:00'')) ds mo sp period \<and>
       (parseInt ds < 1 \<or> 12 < parseInt ds \<or> 59 < minute_value mo)))"
proof -
  have e: "normalizeTime ''25:00'' = Inl InvalidTime" by code_simp
  from normalizeTime_failures [of "''25:00''"] e show ?thesis by blast
qed

subsection \<open>Event and Booking\<close>

text \<open>
  Claim C5, where the code departs from it. The hook does what the claim says: its first
  statement sets \<open>slug\<close> to \<open>slugify title\<close> if the title was modified or the slug is
  absent or empty and leaves the document as it is otherwise, and the whole hook changes no
  field but \<open>slug\<close>, \<open>date\<close> and \<open>time\<close>. But a save validates before it runs the hook,
  and \<open>slug\<close> is a required path: the save of a document whose slug is absent or empty is
  rejected with a validation error on \<open>slug\<close>, the hook does not run, and the slug stays
  as it was. A save that succeeds had a slug, and has refreshed it exactly when the title
  was modified. So a new Event with title \<open>"My Talk"\<close> and no slug is rejected, where
  the hook alone would have given it the slug \<open>"my-talk"\<close>.
\<close>

theorem event_save_slug:
  "refresh_slug tm d =
     d\<lparr>slug := (if tm \<or> slug d = None \<or> slug d = Some [] then Some (slugify (title d))
                else slug d)\<rparr> \<and>
   (event_pre_save toISOString tm d = (d', res) \<longrightarrow>
      slug d' = (if tm \<or> slug d = None \<or> slug d = Some [] then Some (slugify (title d))
                 else slug d) \<and>
      d' = d\<lparr>slug := slug d', date := date d', time := time d'\<rparr>) \<and>
   (slug d = None \<or> slug d = Some [] \<longrightarrow>
      (\<exists>ps. save_event toISOString tm d = (cast_event d, Inl (EventValidationError ps)) \<and>
            ''slug'' \<in> ps) \<and>
      slug (fst (save_event toISOString tm d)) = slug d) \<and>
   (save_event toISOString tm d = (d', Inr ()) \<longrightarrow>
      (\<exists>v. slug d = Some v \<and> v \<noteq> []) \<and>
      slug d' = (if tm then Some (slugify (title d)) else slug d)) \<and>
   save_event (\<lambda>s. Some (s @ ''T00:00:00.000Z'')) True
     \<lparr>title = ''My Talk'', slug = None, description = ''d'', overview = ''o'',
      image_field = ''i'', venue = ''v'', location = ''l'', date = ''2026-01-02'', time = ''2 PM'',
      mode = ''online'', audience = ''all'', agenda = [''a''], organizer = ''org'', tags = [''t''],
      createdAt = 10, updatedAt = 20\<rparr> =
   (\<lparr>title = ''My Talk'', slug = None, description = ''d'', overview = ''o'',
      image_field = ''i'', venue = ''v'', location = ''l'', date = ''2026-01-02'', time = ''2 PM'',
      mode = ''online'', audience = ''all'', agenda = [''a''], organizer = ''org'', tags = [''t''],
      createdAt = 10, updatedAt = 20\<rparr>, Inl (EventValidationError {''slug''})) \<and>
   slug (fst (event_pre_save (\<lambda>s. Some (s @ ''T00:00:00.000Z'')) True
     \<lparr>title = ''My Talk'', slug = None, description = ''d'', overview = ''o'',
      image_field = ''i'', venue = ''v'', location = ''l'', date = ''2026-01-02'', time = ''2 PM'',
      mode = ''online'', audience = ''all'', agenda = [''a''], organizer = ''org'', tags = [''t''],
      createdAt = 10, updatedAt = 20\<rparr>)) = Some ''my-talk''"
proof -
  let ?new = "\<lparr>title = ''My Talk'', slug = None, description = ''d'', overview = ''o'',
      image_field = ''i'', venue = ''v'', location = ''l'', date = ''2026-01-02'', time = ''2 PM'',
      mode = ''online'', audience = ''all'', agenda = [''a''], organizer = ''org'', tags = [''t''],
      createdAt = 10, updatedAt = 20\<rparr>"
  have 1: "refresh_slug tm d =
     d\<lparr>slug := (if tm \<or> slug d = None \<or> slug d = Some [] then Some (slugify (title d))
                else slug d)\<rparr>"
    using refresh_slug_frame [of tm d] slug_unset_iff [of "slug d"] by simp
  have 2: "event_pre_save toISOString tm d = (d', res) \<longrightarrow>
      slug d' = (if tm \<or> slug d = None \<or> slug d = Some [] then Some (slugify (title d))
                 else slug d) \<and>
      d' = d\<lparr>slug := slug d', date := date d', time := time d'\<rparr>"
    using event_pre_save_slug_lemma [of toISOString tm d d' res] slug_unset_iff [of "slug d"]
    by simp
  have 3: "slug d = None \<or> slug d = Some [] \<longrightarrow>
      (\<exists>ps. save_event toISOString tm d = (cast_event d, Inl (EventValidationError ps)) \<and>
            ''slug'' \<in> ps) \<and>
      slug (fst (save_event toISOString tm d)) = slug d"
  proof
    assume u: "slug d = None \<or> slug d = Some []"
    note r = save_event_unset_slug(1) [OF u, of toISOString tm] save_event_unset_slug(2) [OF u]
    from r have "\<exists>ps. save_event toISOString tm d = (cast_event d, Inl (EventValidationError ps)) \<and>
        ''slug'' \<in> ps"
      by blast
    moreover from r(1) have "slug (fst (save_event toISOString tm d)) = slug d"
      by (simp add: cast_event_slug)
    ultimately show "(\<exists>ps. save_event toISOString tm d =
          (cast_event d, Inl (EventValidationError ps)) \<and> ''slug'' \<in> ps) \<and>
      slug (fst (save_event toISOString tm d)) = slug d"
      by blast
  qed
  have 4: "save_event toISOString tm d = (d', Inr ()) \<longrightarrow>
      (\<exists>v. slug d = Some v \<and> v \<noteq> []) \<and>
      slug d' = (if tm then Some (slugify (title d)) else slug d)"
    using save_event_success [of toISOString tm d d'] by blast
  have c: "cast_event ?new = ?new"
    by (simp add: cast_event_def) code_simp
  have p: "set (failed_paths ?new) = {''slug''}"
    by (simp add: failed_paths_def) code_simp
  have u: "slug ?new = None \<or> slug ?new = Some []" by simp
  have 5: "save_event (\<lambda>s. Some (s @ ''T00:00:00.000Z'')) True ?new =
           (?new, Inl (EventValidationError {''slug''}))"
    using save_event_unset_slug(1) [OF u, of "\<lambda>s. Some (s @ ''T00:00:00.000Z'')" True]
    by (simp only: c p)
  have s: "slugify ''My Talk'' = ''my-talk''" by code_simp
  have t: "normalizeTime ''2 PM'' = Inr ''14:00''" by code_simp
  have 6: "slug (fst (event_pre_save (\<lambda>s. Some (s @ ''T00:00:00.000Z'')) True ?new)) =
           Some ''my-talk''"
    by (simp add: event_pre_save_def refresh_slug_def s t)
  show ?thesis
    using 1 2 3 4 5 6 by blast
qed

theorem event_save_slug_witness:
  "slug \<lparr>title = ''My Talk'', slug = None, description = ''d'', overview = ''o'',
      image_field = ''i'', venue = ''v'', location = ''l'', date = ''2026-01-02'', time = ''2 PM'',
      mode = ''online'', audience = ''all'', agenda = [''a''], organizer = ''org'', tags = [''t''],
      createdAt = 10, updatedAt = 20\<rparr> = None \<and>
   slug (fst (save_event (\<lambda>s. Some (s @ ''T00:00:00.000Z'')) False
     \<lparr>title = ''My Talk'', slug = None, description = ''d'', overview = ''o'',
      image_field = ''i'', venue = ''v'', location = ''l'', date = ''2026-01-02'', time = ''2 PM'',
      mode = ''online'', audience = ''all'', agenda = [''a''], organizer = ''org'', tags = [''t''],
      createdAt = 10, updatedAt = 20\<rparr>)) = None \<and>
   refresh_slug False
     \<lparr>title = ''My Talk'', slug = None, description = ''d'', overview = ''o'',
      image_field = ''i'', venue = ''v'', location = ''l'', date = ''2026-01-02'', time = ''2 PM'',
      mode = ''online'', audience = ''all'', agenda = [''a''], organizer = ''org'', tags = [''t''],
      createdAt = 10, updatedAt = 20\<rparr> =
   \<lparr>title = ''My Talk'', slug = Some ''my-talk'', description = ''d'', overview = ''o'',
      image_field = ''i'', venue = ''v'', location = ''l'', date = ''2026-01-02'', time = ''2 PM'',
      mode = ''online'', audience = ''all'', agenda = [''a''], organizer = ''org'', tags = [''t''],
      createdAt = 10, updatedAt = 20\<rparr> \<and>
   save_event (\<lambda>s. Some (s @ ''T00:00:00.000Z'')) False
     \<lparr>title = ''My Talk'', slug = Some ''kept-slug'', description = ''new text'', overview = ''o'',
      image_field = ''i'', venue = ''v'', location = ''l'', date = ''2026-01-02'', time = ''2 PM'',
      mode = ''online'', audience = ''all'', agenda = [''a''], organizer = ''org'', tags = [''t''],
      createdAt = 10, updatedAt = 20\<rparr> =
   (\<lparr>title = ''My Talk'', slug = Some ''kept-slug'', description = ''new text'', overview = ''o'',
      image_field = ''i'', venue = ''v'', location = ''l'', date = ''2026-01-02T00:00:00.000Z'',
      time = ''14:00'', mode = ''online'', audience = ''all'', agenda = [''a''], organizer = ''org'',
      tags = [''t''], createdAt = 10, updatedAt = 20\<rparr>, Inr ()) \<and>
   slug (fst (save_event (\<lambda>s. Some (s @ ''T00:00:00.000Z'')) False
     \<lparr>title = ''My Talk'', slug = Some ''kept-slug'', description = ''new text'', overview = ''o'',
      image_field = ''i'', venue = ''v'', location = ''l'', date = ''2026-01-02'', time = ''2 PM'',
      mode = ''online'', audience = ''all'', agenda = [''a''], organizer = ''org'', tags = [''t''],
      createdAt = 10, updatedAt = 20\<rparr>)) = Some ''kept-slug''"
proof -
  let ?f = "\<lambda>s. Some (s @ ''T00:00:00.000Z'')"
  let ?new = "\<lparr>title = ''My Talk'', slug = None, description = ''d'', overview = ''o'',
      image_field = ''i'', venue = ''v'', location = ''l'', date = ''2026-01-02'', time = ''2 PM'',
      mode = ''online'', audience = ''all'', agenda = [''a''], organizer = ''org'', tags = [''t''],
      createdAt = 10, updatedAt = 20\<rparr>"
  let ?old = "\<lparr>title = ''My Talk'', slug = Some ''kept-slug'', description = ''new text'',
      overview = ''o'', image_field = ''i'', venue = ''v'', location = ''l'', date = ''2026-01-02'',
      time = ''2 PM'', mode = ''online'', audience = ''all'', agenda = [''a''], organizer = ''org'',
      tags = [''t''], createdAt = 10, updatedAt = 20\<rparr>"
  let ?res = "\<lparr>title = ''My Talk'', slug = Some ''kept-slug'', description = ''new text'',
      overview = ''o'', image_field = ''i'', venue = ''v'', location = ''l'',
      date = ''2026-01-02T00:00:00.000Z'', time = ''14:00'', mode = ''online'', audience = ''all'',
      agenda = [''a''], organizer = ''org'', tags = [''t''], createdAt = 10, updatedAt = 20\<rparr>"
  have s: "slugify ''My Talk'' = ''my-talk''" by code_simp
  have t: "normalizeTime ''2 PM'' = Inr ''14:00''" by code_simp
  have c: "cast_event ?old = ?old"
    by (simp add: cast_event_def) code_simp
  have p: "failed_paths ?old = []"
    by (simp add: failed_paths_def) code_simp
  have ok: "save_event ?f False ?old = (?res, Inr ())"
    by (simp add: save_event_def c p event_pre_save_def refresh_slug_def slug_unset_def t)
  note n = event_save_slug [of False ?new ?f]
  note o = event_save_slug [of False ?old ?f ?res]
  from n have a: "slug (fst (save_event ?f False ?new)) = None"
    by simp
  from n s have b: "refresh_slug False ?new = ?new\<lparr>slug := Some ''my-talk''\<rparr>"
    by simp
  from o ok have d: "slug ?res = Some ''kept-slug''"
    by simp
  show ?thesis
    using a b ok by simp
qed

text \<open>
  Claim C6. The pre-save hook of a Booking lets the write go on exactly when the Event
  collection holds a document whose identifier is the booking's \<open>eventId\<close>; when the
  query finds none it passes the error "Referenced Event does not exist". A save that
  succeeds therefore refers to an existing Event and appends the booking to the store; a
  save whose \<open>eventId\<close> names no existing Event is rejected and leaves the store as it
  was, with that error whenever the document is valid.
\<close>

theorem booking_requires_event:
  "(booking_pre_save db doc = Inr () \<longleftrightarrow>
      (\<exists>ids. event_collection db = Inr ids \<and> eventId doc \<in> set ids)) \<and>
   (event_collection db = Inr ids \<and> eventId doc \<notin> set ids \<longrightarrow>
      booking_pre_save db doc = Inl ReferencedEventMissing) \<and>
   (save_booking db b = (db', Inr stored) \<longrightarrow>
      in_eventId b = Some (eventId stored) \<and>
      (\<exists>ids. event_collection db = Inr ids \<and> eventId stored \<in> set ids) \<and>
      db' = db\<lparr>bookings := bookings db @ [stored]\<rparr>) \<and>
   (save_booking db b = (db', Inl err) \<longrightarrow> db' = db) \<and>
   (event_collection db = Inr ids \<and> in_eventId b = Some i \<and> i \<notin> set ids \<longrightarrow>
      (\<exists>err. save_booking db b = (db, Inl err)) \<and>
      (\<forall>v. validate_booking (cast_booking b) = Inr v \<longrightarrow>
           save_booking db b = (db, Inl ReferencedEventMissing)))"
proof -
  have 1: "booking_pre_save db doc = Inr () \<longleftrightarrow>
      (\<exists>ids. event_collection db = Inr ids \<and> eventId doc \<in> set ids)"
    by (rule booking_pre_save_iff)
  have 2: "event_collection db = Inr ids \<and> eventId doc \<notin> set ids \<longrightarrow>
      booking_pre_save db doc = Inl ReferencedEventMissing"
    using booking_pre_save_missing by blast
  have 3: "save_booking db b = (db', Inr stored) \<longrightarrow>
      in_eventId b = Some (eventId stored) \<and>
      (\<exists>ids. event_collection db = Inr ids \<and> eventId stored \<in> set ids) \<and>
      db' = db\<lparr>bookings := bookings db @ [stored]\<rparr>"
    using save_booking_stored(1,3,4) [of db b db' stored] by blast
  have 4: "save_booking db b = (db', Inl err) \<longrightarrow> db' = db"
    using save_booking_rejected by blast
  have 5: "event_collection db = Inr ids \<and> in_eventId b = Some i \<and> i \<notin> set ids \<longrightarrow>
      (\<exists>err. save_booking db b = (db, Inl err)) \<and>
      (\<forall>v. validate_booking (cast_booking b) = Inr v \<longrightarrow>
           save_booking db b = (db, Inl ReferencedEventMissing))"
    using save_booking_missing [of db ids b i] by blast
  show ?thesis
    using 1 2 3 4 5 by blast
qed

theorem booking_requires_event_witness:
  "event_collection \<lparr>event_collection = Inr [7], bookings = []\<rparr> = Inr [7] \<and>
   in_eventId \<lparr>in_eventId = Some 8, in_email = Some ''a@b.co''\<rparr> = Some 8 \<and>
   (8::nat) \<notin> set [7] \<and>
   validate_booking (cast_booking \<lparr>in_eventId = Some 8, in_email = Some ''a@b.co''\<rparr>) =
     Inr \<lparr>eventId = 8, email = ''a@b.co''\<rparr> \<and>
   save_booking \<lparr>event_collection = Inr [7], bookings = []\<rparr>
     \<lparr>in_eventId = Some 8, in_email = Some ''a@b.co''\<rparr> =
   (\<lparr>event_collection = Inr [7], bookings = []\<rparr>, Inl ReferencedEventMissing)"
proof -
  have v: "validate_booking (cast_booking \<lparr>in_eventId = Some 8, in_email = Some ''a@b.co''\<rparr>) =
     Inr \<lparr>eventId = 8, email = ''a@b.co''\<rparr>"
    by code_simp
  from booking_requires_event
    [of "\<lparr>event_collection = Inr [7], bookings = []\<rparr>" _ "[7]"
        "\<lparr>in_eventId = Some 8, in_email = Some ''a@b.co''\<rparr>" _ _ _ 8] v
  show ?thesis by simp
qed

text \<open>
  Claim C7. On a Booking write the email is trimmed and lower-cased first (the two
  commute): every input is white space, a core that neither starts nor ends with white
  space, and white space, and what is validated and stored is the lower-cased core. That
  text passes validation exactly when it is \<open>local@domain.tld\<close>-shaped: a non-empty local
  part, an at sign, a non-empty domain, a full stop and a non-empty rest, none of them
  with white space or a further at sign. A stored booking holds the trimmed, lower-cased
  email, which has that shape; an email that fails the check makes the write fail with a
  validation error and leaves the store as it was. \<open>"User@Example.COM"\<close> with an
  existing Event is stored as \<open>"user@example.com"\<close>, with or without white space
  around it.
\<close>

theorem booking_email_check:
  "email_setters e = toLowerCase (trim e) \<and>
   toLowerCase (trim e) = trim (toLowerCase e) \<and>
   (\<exists>pre core post. e = pre @ core @ post \<and> list_all is_space pre \<and> list_all is_space post \<and>
      (core = [] \<or> \<not> is_space (hd core) \<and> \<not> is_space (last core))) \<and>
   (list_all is_space pre \<and> list_all is_space post \<and>
    (core = [] \<or> \<not> is_space (hd core) \<and> \<not> is_space (last core)) \<longrightarrow>
      trim (pre @ core @ post) = core \<and>
      email_setters (pre @ core @ post) = toLowerCase core \<and>
      (validate_email (Some (email_setters (pre @ core @ post))) = [] \<longleftrightarrow>
         email_shape (toLowerCase core)) \<and>
      (in_email b = Some (pre @ core @ post) \<and> save_booking db b = (db', Inr stored) \<longrightarrow>
         email stored = toLowerCase core \<and> email_shape (toLowerCase core)) \<and>
      (in_email b = Some (pre @ core @ post) \<and> \<not> email_shape (toLowerCase core) \<longrightarrow>
         (\<exists>errs. save_booking db b = (db, Inl (ValidationError errs))))) \<and>
   (EMAIL_RE_test v \<longleftrightarrow> email_shape v) \<and>
   (validate_email (Some (email_setters e)) = [] \<longleftrightarrow> email_shape (toLowerCase (trim e))) \<and>
   (save_booking db b = (db', Inr stored) \<longrightarrow>
      (\<exists>x. in_email b = Some x \<and> email stored = toLowerCase (trim x) \<and> email_shape (email stored))) \<and>
   (in_email b = Some e \<and> \<not> email_shape (toLowerCase (trim e)) \<longrightarrow>
      (\<exists>errs. save_booking db b = (db, Inl (ValidationError errs)))) \<and>
   save_booking \<lparr>event_collection = Inr [7], bookings = []\<rparr>
     \<lparr>in_eventId = Some 7, in_email = Some ''User@Example.COM''\<rparr> =
   (\<lparr>event_collection = Inr [7], bookings = [\<lparr>eventId = 7, email = ''user@example.com''\<rparr>]\<rparr>,
    Inr \<lparr>eventId = 7, email = ''user@example.com''\<rparr>) \<and>
   save_booking \<lparr>event_collection = Inr [7], bookings = []\<rparr>
     \<lparr>in_eventId = Some 7, in_email = Some ''  User@Example.COM  ''\<rparr> =
   (\<lparr>event_collection = Inr [7], bookings = [\<lparr>eventId = 7, email = ''user@example.com''\<rparr>]\<rparr>,
    Inr \<lparr>eventId = 7, email = ''user@example.com''\<rparr>)"
proof -
  have 1: "email_setters e = toLowerCase (trim e)" by (simp add: email_setters_def)
  have 2: "toLowerCase (trim e) = trim (toLowerCase e)" by (simp add: trim_toLowerCase)
  have 3: "EMAIL_RE_test v \<longleftrightarrow> email_shape v" by (rule EMAIL_RE_iff)
  have 4: "validate_email (Some (email_setters e)) = [] \<longleftrightarrow> email_shape (toLowerCase (trim e))"
    using validate_email_iff [of "email_setters e"] by (simp add: email_setters_def)
  have 5: "save_booking db b = (db', Inr stored) \<longrightarrow>
      (\<exists>x. in_email b = Some x \<and> email stored = toLowerCase (trim x) \<and> email_shape (email stored))"
    using save_booking_stored(2) by blast
  have 6: "in_email b = Some e \<and> \<not> email_shape (toLowerCase (trim e)) \<longrightarrow>
      (\<exists>errs. save_booking db b = (db, Inl (ValidationError errs)))"
    using save_booking_bad_email by blast
  have 7: "\<exists>pre core post. e = pre @ core @ post \<and> list_all is_space pre \<and> list_all is_space post \<and>
      (core = [] \<or> \<not> is_space (hd core) \<and> \<not> is_space (last core))"
    by (rule trim_decomp)
  have 8: "list_all is_space pre \<and> list_all is_space post \<and>
    (core = [] \<or> \<not> is_space (hd core) \<and> \<not> is_space (last core)) \<longrightarrow>
      trim (pre @ core @ post) = core \<and>
      email_setters (pre @ core @ post) = toLowerCase core \<and>
      (validate_email (Some (email_setters (pre @ core @ post))) = [] \<longleftrightarrow>
         email_shape (toLowerCase core)) \<and>
      (in_email b = Some (pre @ core @ post) \<and> save_booking db b = (db', Inr stored) \<longrightarrow>
         email stored = toLowerCase core \<and> email_shape (toLowerCase core)) \<and>
      (in_email b = Some (pre @ core @ post) \<and> \<not> email_shape (toLowerCase core) \<longrightarrow>
         (\<exists>errs. save_booking db b = (db, Inl (ValidationError errs))))"
  proof
    assume "list_all is_space pre \<and> list_all is_space post \<and>
      (core = [] \<or> \<not> is_space (hd core) \<and> \<not> is_space (last core))"
    then have t: "trim (pre @ core @ post) = core"
      using trim_sandwich [of pre post core] by blast
    have a: "email_setters (pre @ core @ post) = toLowerCase core"
      by (simp only: email_setters_def t)
    have b: "validate_email (Some (email_setters (pre @ core @ post))) = [] \<longleftrightarrow>
         email_shape (toLowerCase core)"
      using validate_email_iff [of "toLowerCase core"] by (simp only: a)
    have c: "in_email b = Some (pre @ core @ post) \<and> save_booking db b = (db', Inr stored) \<longrightarrow>
         email stored = toLowerCase core \<and> email_shape (toLowerCase core)"
    proof
      assume h: "in_email b = Some (pre @ core @ post) \<and> save_booking db b = (db', Inr stored)"
      then obtain x where "in_email b = Some x" "email stored = toLowerCase (trim x)"
        "email_shape (email stored)"
        using save_booking_stored(2) [of db b db' stored] by blast
      with h have "email stored = toLowerCase (trim (pre @ core @ post))" "email_shape (email stored)"
        by simp_all
      then show "email stored = toLowerCase core \<and> email_shape (toLowerCase core)"
        by (simp add: t)
    qed
    have d: "in_email b = Some (pre @ core @ post) \<and> \<not> email_shape (toLowerCase core) \<longrightarrow>
         (\<exists>errs. save_booking db b = (db, Inl (ValidationError errs)))"
      using save_booking_bad_email [of b "pre @ core @ post" db] by (simp add: t)
    show "trim (pre @ core @ post) = core \<and>
      email_setters (pre @ core @ post) = toLowerCase core \<and>
      (validate_email (Some (email_setters (pre @ core @ post))) = [] \<longleftrightarrow>
         email_shape (toLowerCase core)) \<and>
      (in_email b = Some (pre @ core @ post) \<and> save_booking db b = (db', Inr stored) \<longrightarrow>
         email stored = toLowerCase core \<and> email_shape (toLowerCase core)) \<and>
      (in_email b = Some (pre @ core @ post) \<and> \<not> email_shape (toLowerCase core) \<longrightarrow>
         (\<exists>errs. save_booking db b = (db, Inl (ValidationError errs))))"
      using t a b c d by blast
  qed
  show ?thesis
    using 1 2 3 4 5 6 7 8 booking_example booking_example_padded by blast
qed

theorem booking_email_check_witness:
  "list_all is_space ''  '' \<and> list_all is_space [CHR 0x09] \<and>
   \<not> is_space (hd ''User@Example.COM'') \<and> \<not> is_space (last ''User@Example.COM'') \<and>
   trim (''  '' @ ''User@Example.COM'' @ [CHR 0x09]) = ''User@Example.COM'' \<and>
   email_setters (''  '' @ ''User@Example.COM'' @ [CHR 0x09]) = ''user@example.com'' \<and>
   email_shape ''user@example.com'' \<and>
   validate_email (Some (email_setters (''  '' @ ''User@Example.COM'' @ [CHR 0x09]))) = [] \<and>
   in_email \<lparr>in_eventId = Some 7, in_email = Some ''  not an email ''\<rparr> = Some ''  not an email '' \<and>
   \<not> email_shape (toLowerCase (trim ''  not an email '')) \<and>
   (\<exists>errs. save_booking \<lparr>event_collection = Inr [7], bookings = []\<rparr>
              \<lparr>in_eventId = Some 7, in_email = Some ''  not an email ''\<rparr> =
            (\<lparr>event_collection = Inr [7], bookings = []\<rparr>, Inl (ValidationError errs)))"
proof -
  have h: "list_all is_space ''  ''" "list_all is_space [CHR 0x09]"
    "\<not> is_space (hd ''User@Example.COM'')" "\<not> is_space (last ''User@Example.COM'')"
    by code_simp+
  have l: "toLowerCase ''User@Example.COM'' = ''user@example.com''" by code_simp
  have a: "\<not> EMAIL_RE_test (toLowerCase (trim ''  not an email ''))" by code_simp
  have b: "EMAIL_RE_test ''user@example.com''" by code_simp
  note p = booking_email_check [where pre = "''  ''" and core = "''User@Example.COM''"
      and post = "[CHR 0x09]" and v = "''user@example.com''"]
  note t = booking_email_check [where e = "''  not an email ''"
      and b = "\<lparr>in_eventId = Some 7, in_email = Some ''  not an email ''\<rparr>"
      and db = "\<lparr>event_collection = Inr [7], bookings = []\<rparr>"
      and v = "toLowerCase (trim ''  not an email '')"]
  have sb: "email_shape ''user@example.com''"
    using b p by blast
  have na: "\<not> email_shape (toLowerCase (trim ''  not an email ''))"
    using a t by blast
  have hyp: "list_all is_space ''  '' \<and> list_all is_space [CHR 0x09] \<and>
      (''User@Example.COM'' = [] \<or>
       \<not> is_space (hd ''User@Example.COM'') \<and> \<not> is_space (last ''User@Example.COM''))"
    using h by blast
  from p hyp have c0: "trim (''  '' @ ''User@Example.COM'' @ [CHR 0x09]) = ''User@Example.COM'' \<and>
      email_setters (''  '' @ ''User@Example.COM'' @ [CHR 0x09]) = toLowerCase ''User@Example.COM'' \<and>
      (validate_email (Some (email_setters (''  '' @ ''User@Example.COM'' @ [CHR 0x09]))) = [] \<longleftrightarrow>
         email_shape (toLowerCase ''User@Example.COM''))"
    by blast
  have sl: "email_shape (toLowerCase ''User@Example.COM'')"
    using sb by (simp only: l)
  have c: "trim (''  '' @ ''User@Example.COM'' @ [CHR 0x09]) = ''User@Example.COM''"
    "email_setters (''  '' @ ''User@Example.COM'' @ [CHR 0x09]) = ''user@example.com''"
    "validate_email (Some (email_setters (''  '' @ ''User@Example.COM'' @ [CHR 0x09]))) = []"
  proof -
    show "trim (''  '' @ ''User@Example.COM'' @ [CHR 0x09]) = ''User@Example.COM''"
      using c0 by blast
    have "email_setters (''  '' @ ''User@Example.COM'' @ [CHR 0x09]) = toLowerCase ''User@Example.COM''"
      using c0 by blast
    then show "email_setters (''  '' @ ''User@Example.COM'' @ [CHR 0x09]) = ''user@example.com''"
      by (simp only: l)
    show "validate_email (Some (email_setters (''  '' @ ''User@Example.COM'' @ [CHR 0x09]))) = []"
      using c0 sl by blast
  qed
  from t na have d: "\<exists>errs. save_booking \<lparr>event_collection = Inr [7], bookings = []\<rparr>
              \<lparr>in_eventId = Some 7, in_email = Some ''  not an email ''\<rparr> =
            (\<lparr>event_collection = Inr [7], bookings = []\<rparr>, Inl (ValidationError errs))"
    by simp
  have i: "in_email \<lparr>in_eventId = Some 7, in_email = Some ''  not an email ''\<rparr> =
      Some ''  not an email ''"
    by simp
  show ?thesis
    using h c sb na d i by blast
qed

subsection \<open>Connection cache\<close>

text \<open>
  Claim C1, as the code has it. The check of the connection URI comes first in
  \<open>connectToDatabase\<close>: a call made while the URI is configured and a live connection is
  cached returns that connection at once and leaves the cache as it is; a call made while
  the URI is absent fails with the missing-configuration error whatever the cache holds,
  also when a live connection is cached; and the call raises that error exactly when the
  URI is absent.
\<close>

theorem connectToDatabase_uri_guard:
  "(\<not> uri_missing uri \<and> conn c = Some h \<longrightarrow> connectToDatabase uri c = (Return h, c)) \<and>
   (uri_missing uri \<longrightarrow> connectToDatabase uri c = (Throw MissingUri, c)) \<and>
   (fst (connectToDatabase uri c) = Throw MissingUri \<longleftrightarrow> uri_missing uri)"
proof (cases "uri_missing uri")
  case True
  then have "connectToDatabase uri c = (Throw MissingUri, c)"
    by (simp add: connectToDatabase_def)
  with True show ?thesis by simp
next
  case False
  have cached: "conn c = Some h \<longrightarrow> connectToDatabase uri c = (Return h, c)"
    using False by (simp add: connectToDatabase_def)
  have "fst (connectToDatabase uri c) \<noteq> Throw MissingUri"
    using False by (simp add: connectToDatabase_def Let_def split: option.splits)
  with False cached show ?thesis by simp
qed

theorem connectToDatabase_uri_guard_witness:
  "\<not> uri_missing (Some ''mongodb://localhost/dev'') \<and>
   conn \<lparr>conn = Some 1, promise = Some 0, promises = [Fulfilled 1], global_cache = True\<rparr> = Some 1 \<and>
   connectToDatabase (Some ''mongodb://localhost/dev'')
     \<lparr>conn = Some 1, promise = Some 0, promises = [Fulfilled 1], global_cache = True\<rparr> =
   (Return 1, \<lparr>conn = Some 1, promise = Some 0, promises = [Fulfilled 1], global_cache = True\<rparr>) \<and>
   uri_missing None \<and>
   connectToDatabase None initial_cache = (Throw MissingUri, initial_cache)"
proof -
  have a: "\<not> uri_missing (Some ''mongodb://localhost/dev'')" "uri_missing None"
    by (simp_all add: uri_missing_def)
  from connectToDatabase_uri_guard
      [of "Some ''mongodb://localhost/dev''"
          "\<lparr>conn = Some 1, promise = Some 0, promises = [Fulfilled 1], global_cache = True\<rparr>" 1]
    connectToDatabase_uri_guard [of None initial_cache] a
  show ?thesis by simp
qed

text \<open>
  The claim as stated fails: with a live connection cached and the URI absent, the call
  does not return the cached connection but fails with the missing-configuration error.
\<close>

theorem connectToDatabase_cached_counterexample:
  "conn \<lparr>conn = Some 1, promise = Some 0, promises = [Fulfilled 1], global_cache = True\<rparr> = Some 1 \<and>
   fst (connectToDatabase None
     \<lparr>conn = Some 1, promise = Some 0, promises = [Fulfilled 1], global_cache = True\<rparr>) =
   Throw MissingUri \<and>
   fst (connectToDatabase None
     \<lparr>conn = Some 1, promise = Some 0, promises = [Fulfilled 1], global_cache = True\<rparr>) \<noteq>
   Return 1"
  by (simp add: connectToDatabase_def uri_missing_def)




text \<open>
  Claim C10, as the code has it. After the establishment attempt of a cache object was
  rejected, the rejected promise stays in the promise slot of that object: under every
  further schedule, re-evaluations of the module included, the object stays exactly as it
  is. As long as the module is not re-evaluated, no new establishment is started; every
  later call made with the URI configured suspends on that stored promise and, resumed,
  throws the error it was rejected with; a later call made with the URI absent fails with
  the missing-configuration error; and no later call ends in any other way.
\<close>

theorem connectToDatabase_failure_sticky:
  "failed_cache c e \<longrightarrow>
     connectToDatabase uri c = ((if uri_missing uri then Throw MissingUri else Await 0), c) \<and>
     connectToDatabase_resume 0 c = Some (Throw e, c) \<and>
     (k < length (caches s) \<and> caches s ! k = c \<longrightarrow> caches (run s as) ! k = c) \<and>
     (Reload \<notin> set as \<and> current s = k \<and> k < length (caches s) \<and> caches s ! k = c \<longrightarrow>
        establishments (run s as) = establishments s \<and>
        (callers s i = Idle \<longrightarrow>
           callers (run s as) i \<in> {Idle, Waiting k 0, Done (Throw e), Done (Throw MissingUri)}))"
proof
  assume f: "failed_cache c e"
  have 1: "connectToDatabase uri c = ((if uri_missing uri then Throw MissingUri else Await 0), c)"
    by (rule failed_connectToDatabase [OF f])
  have 2: "connectToDatabase_resume 0 c = Some (Throw e, c)"
    by (rule failed_connectToDatabase_resume [OF f])
  have 3: "k < length (caches s) \<and> caches s ! k = c \<longrightarrow> caches (run s as) ! k = c"
    using failed_object_run [of k s e as] f by auto
  have 4: "Reload \<notin> set as \<and> current s = k \<and> k < length (caches s) \<and> caches s ! k = c \<longrightarrow>
        establishments (run s as) = establishments s \<and>
        (callers s i = Idle \<longrightarrow>
           callers (run s as) i \<in> {Idle, Waiting k 0, Done (Throw e), Done (Throw MissingUri)})"
    using failed_current_run [of as s k e i] f by (auto simp: failed_outcomes_def)
  show "connectToDatabase uri c = ((if uri_missing uri then Throw MissingUri else Await 0), c) \<and>
     connectToDatabase_resume 0 c = Some (Throw e, c) \<and>
     (k < length (caches s) \<and> caches s ! k = c \<longrightarrow> caches (run s as) ! k = c) \<and>
     (Reload \<notin> set as \<and> current s = k \<and> k < length (caches s) \<and> caches s ! k = c \<longrightarrow>
        establishments (run s as) = establishments s \<and>
        (callers s i = Idle \<longrightarrow>
           callers (run s as) i \<in> {Idle, Waiting k 0, Done (Throw e), Done (Throw MissingUri)}))"
    using 1 2 3 4 by blast
qed

theorem connectToDatabase_failure_sticky_witness:
  "caches (run initial [Call 0 (Some ''mongodb://db''),
                        Settle 0 0 (Rejected (ConnectFailed ''refused'')), Resume 0]) =
     [\<lparr>conn = None, promise = Some 0, promises = [Rejected (ConnectFailed ''refused'')],
       global_cache = False\<rparr>] \<and>
   callers (run initial [Call 0 (Some ''mongodb://db''),
                         Settle 0 0 (Rejected (ConnectFailed ''refused'')), Resume 0]) 0 =
     Done (Throw (ConnectFailed ''refused'')) \<and>
   failed_cache
     \<lparr>conn = None, promise = Some 0, promises = [Rejected (ConnectFailed ''refused'')],
      global_cache = False\<rparr> (ConnectFailed ''refused'') \<and>
   connectToDatabase (Some ''mongodb://db'')
     \<lparr>conn = None, promise = Some 0, promises = [Rejected (ConnectFailed ''refused'')],
      global_cache = False\<rparr> =
   (Await 0, \<lparr>conn = None, promise = Some 0, promises = [Rejected (ConnectFailed ''refused'')],
      global_cache = False\<rparr>) \<and>
   connectToDatabase_resume 0
     \<lparr>conn = None, promise = Some 0, promises = [Rejected (ConnectFailed ''refused'')],
      global_cache = False\<rparr> =
   Some (Throw (ConnectFailed ''refused''),
     \<lparr>conn = None, promise = Some 0, promises = [Rejected (ConnectFailed ''refused'')],
      global_cache = False\<rparr>) \<and>
   Reload \<notin> set [Call 1 (Some ''mongodb://db''), Resume 1, Call 2 None] \<and>
   establishments
     (run \<lparr>caches = [\<lparr>conn = None, promise = Some 0,
                        promises = [Rejected (ConnectFailed ''refused'')], global_cache = False\<rparr>],
           current = 0, callers = (\<lambda>_. Idle)\<rparr>
        [Call 1 (Some ''mongodb://db''), Resume 1, Call 2 None]) = 1 \<and>
   caches
     (run \<lparr>caches = [\<lparr>conn = None, promise = Some 0,
                        promises = [Rejected (ConnectFailed ''refused'')], global_cache = False\<rparr>],
           current = 0, callers = (\<lambda>_. Idle)\<rparr>
        [Call 1 (Some ''mongodb://db''), Reload, Resume 1, Call 2 None]) ! 0 =
     \<lparr>conn = None, promise = Some 0, promises = [Rejected (ConnectFailed ''refused'')],
      global_cache = False\<rparr>"
proof -
  let ?c = "\<lparr>conn = None, promise = Some 0, promises = [Rejected (ConnectFailed ''refused'')],
      global_cache = False\<rparr>"
  let ?s = "\<lparr>caches = [?c], current = 0, callers = (\<lambda>_. Idle)\<rparr>"
  have r: "caches (run initial [Call 0 (Some ''mongodb://db''),
                              Settle 0 0 (Rejected (ConnectFailed ''refused'')), Resume 0]) = [?c]"
    "callers (run initial [Call 0 (Some ''mongodb://db''),
                         Settle 0 0 (Rejected (ConnectFailed ''refused'')), Resume 0]) 0 =
     Done (Throw (ConnectFailed ''refused''))"
    by (simp_all add: run_def step_def initial_def initial_cache_def connectToDatabase_def
          connectToDatabase_resume_def uri_missing_def)
  have f: "failed_cache ?c (ConnectFailed ''refused'')"
    by (simp add: failed_cache_def)
  have u: "\<not> uri_missing (Some ''mongodb://db'')" by (simp add: uri_missing_def)
  have e: "establishments ?s = 1" by (simp add: establishments_def)
  have n: "Reload \<notin> set [Call 1 (Some ''mongodb://db''), Resume 1, Call 2 None]" by simp
  from connectToDatabase_failure_sticky
      [of ?c "ConnectFailed ''refused''" "Some ''mongodb://db''" 0 ?s
          "[Call 1 (Some ''mongodb://db''), Resume 1, Call 2 None]"] f u e n
  have a: "connectToDatabase (Some ''mongodb://db'') ?c = (Await 0, ?c)"
    "connectToDatabase_resume 0 ?c = Some (Throw (ConnectFailed ''refused''), ?c)"
    "establishments (run ?s [Call 1 (Some ''mongodb://db''), Resume 1, Call 2 None]) = 1"
    by simp_all
  from connectToDatabase_failure_sticky
      [of ?c "ConnectFailed ''refused''" _ 0 ?s
          "[Call 1 (Some ''mongodb://db''), Reload, Resume 1, Call 2 None]"] f
  have b: "caches (run ?s [Call 1 (Some ''mongodb://db''), Reload, Resume 1, Call 2 None]) ! 0 = ?c"
    by simp
  show ?thesis
    using r f a b n by simp
qed

text \<open>
  The claim as stated fails in two ways. After a rejected attempt, a call made with the
  URI absent does not suspend on the stored promise and does not fail with the attempt's
  error; it fails with the missing-configuration error. And since a rejected attempt never
  reaches the assignment to \<open>globalThis._mongoose\<close>, a re-evaluation of the module after
  the failure gets a fresh cache, and the next call starts a fresh establishment in the
  same process.
\<close>

theorem connectToDatabase_failed_counterexample:
  "failed_cache \<lparr>conn = None, promise = Some 0, promises = [Rejected (ConnectFailed ''refused'')],
      global_cache = False\<rparr> (ConnectFailed ''refused'') \<and>
   fst (connectToDatabase None
     \<lparr>conn = None, promise = Some 0, promises = [Rejected (ConnectFailed ''refused'')],
      global_cache = False\<rparr>) = Throw MissingUri \<and>
   fst (connectToDatabase None
     \<lparr>conn = None, promise = Some 0, promises = [Rejected (ConnectFailed ''refused'')],
      global_cache = False\<rparr>) \<noteq> Await 0 \<and>
   MissingUri \<noteq> ConnectFailed ''refused'' \<and>
   establishments
     (run initial [Call 0 (Some ''mongodb://db''),
        Settle 0 0 (Rejected (ConnectFailed ''refused'')), Resume 0]) = 1 \<and>
   establishments
     (run initial [Call 0 (Some ''mongodb://db''),
        Settle 0 0 (Rejected (ConnectFailed ''refused'')), Resume 0, Reload,
        Call 1 (Some ''mongodb://db'')]) = 2"
  by (simp add: run_def step_def initial_def initial_cache_def connectToDatabase_def
        connectToDatabase_resume_def establishments_def published_def uri_missing_def
        failed_cache_def)

end
